theory Spec2Isabelle
  imports Main "HOL-Library.Word"
begin

section \<open>Data model of the AlgoT I/O scheduler (algot-iosched.c)\<close>

text \<open>
  The model assumes a 64-bit kernel: \<open>sector_t\<close>, \<open>long\<close> and \<open>uintptr_t\<close> are 64 bits
  wide, \<open>unsigned int\<close> and \<open>int\<close> are 32 bits wide. Arithmetic on them wraps around, as
  the word types do. The counter \<open>dirty\<close> is a C \<open>int\<close>: a 32-bit word that is read as
  two's complement where it is compared (\<open>\<le>s\<close>), and whose increment wraps around from
  \<open>2^31 - 1\<close> to \<open>- 2^31\<close>, as it does in a kernel built with \<open>-fno-strict-overflow\<close>.
\<close>

type_synonym sector_t = "64 word"
type_synonym uint = "32 word"
type_synonym c_int = "32 word"
type_synonym uintptr_t = "64 word"

text \<open>
  A \<open>struct request *\<close>. Two requests are the same request when they are the same
  value; \<open>blk_rq_pos\<close> is the start sector of the request.
\<close>

datatype request = Request (rq_id: nat) (blk_rq_pos: sector_t)

text \<open>
  An entry of the array \<open>sorted\<close>: the null pointer \<open>ALGOT_REF_MERGED\<close>, the pointer
  \<open>0x1\<close> \<open>ALGOT_REF_DISPATCHED\<close>, or a pointer to a request.
\<close>

datatype slot = ALGOT_REF_MERGED | ALGOT_REF_DISPATCHED | Ref request

definition ALGOT_CALC_MAX :: nat where
  "ALGOT_CALC_MAX = 128"

definition ALGOT_DIRTY_COUNT :: c_int where
  "ALGOT_DIRTY_COUNT = 8"

definition ALGOT_PRI0_UNSORTED :: uintptr_t where
  "ALGOT_PRI0_UNSORTED = - 2"

definition ALGOT_PRI0_SORTED :: uintptr_t where
  "ALGOT_PRI0_SORTED = - 1"

text \<open>
  The ways a call can stop the kernel: \<open>BUG()\<close> in \<open>pick_opt\<close>, \<open>BUG_ON\<close> in
  \<open>algot_merged_requests\<close>, \<open>BUG_ON\<close> in \<open>algot_exit_queue\<close>, and an invalid memory
  access (a null or sentinel pointer dereferenced, an array read or written outside
  its bounds).
\<close>

datatype error = BUG_dispatched | BUG_ON_ref | BUG_ON_queue | Fault

text \<open>
  \<open>struct algot_data\<close>. The two kernel lists are lists of requests, head first. The
  arrays \<open>sorted\<close> (of \<open>ALGOT_CALC_MAX\<close> entries) and \<open>cost_matrix\<close> (of
  \<open>ALGOT_CALC_MAX * ALGOT_CALC_MAX\<close> entries) are the contents of the allocated
  memory; accesses check the bounds. The field \<open>elevator_private0\<close> holds
  \<open>elevator_private[0]\<close> of every request; it lives in the requests, and is kept with
  the scheduler state because the model has no separate store of requests.
\<close>

record algot_data =
  wait_queue :: "request list"
  sort_queue :: "request list"
  sorted :: "nat \<Rightarrow> slot"
  cost_matrix :: "nat \<Rightarrow> sector_t"
  rw_head :: sector_t
  nsorted :: uint
  opt_s :: uint
  opt_e :: uint
  opt_ns :: uint
  dirty :: c_int
  vloc :: bool
  elevator_private0 :: "request \<Rightarrow> uintptr_t"

section \<open>Errors as values\<close>

definition ebind :: "error + 'a \<Rightarrow> ('a \<Rightarrow> error + 'b) \<Rightarrow> error + 'b" where
  "ebind m f = (case m of Inl err \<Rightarrow> Inl err | Inr x \<Rightarrow> f x)"

fun efold :: "('a \<Rightarrow> 's \<Rightarrow> error + 's) \<Rightarrow> 'a list \<Rightarrow> 's \<Rightarrow> error + 's" where
  "efold f [] st = Inr st"
| "efold f (x # xs) st = (case f x st of Inl err \<Rightarrow> Inl err | Inr st' \<Rightarrow> efold f xs st')"

section \<open>Kernel helpers used by the scheduler\<close>

text \<open>
  \<open>list_del_init(&rq->queuelist)\<close>: the request leaves the list it is linked in.
\<close>

definition list_del_init :: "request \<Rightarrow> algot_data \<Rightarrow> algot_data" where
  "list_del_init rq nd =
     nd\<lparr>wait_queue := removeAll rq (wait_queue nd), sort_queue := removeAll rq (sort_queue nd)\<rparr>"

text \<open>
  The kernel macro \<open>abs\<close> of that time: an operand of the size of \<open>long\<close> is read as a
  \<open>long\<close>, any other as an \<open>int\<close>; the result is a \<open>long\<close>.
\<close>

definition abs_long :: "64 word \<Rightarrow> 64 word" where
  "abs_long x = (if x <s 0 then - x else x)"

definition abs_int :: "32 word \<Rightarrow> 64 word" where
  "abs_int x = scast (if x <s 0 then - x else x)"

text \<open>\<open>blk_rq_pos(sorted[i])\<close>: the entry is dereferenced as a request.\<close>

definition slot_pos :: "slot \<Rightarrow> error + sector_t" where
  "slot_pos sl = (case sl of Ref rq \<Rightarrow> Inr (blk_rq_pos rq) | _ \<Rightarrow> Inl Fault)"

definition sorted_rd :: "(nat \<Rightarrow> slot) \<Rightarrow> nat \<Rightarrow> error + slot" where
  "sorted_rd sa i = (if i < ALGOT_CALC_MAX then Inr (sa i) else Inl Fault)"

text \<open>\<open>MATRIX(matrix, width, i, j)\<close> is \<open>matrix[(i)*(width) + (j)]\<close>, computed in \<open>unsigned int\<close>.\<close>

definition MATRIX :: "uint \<Rightarrow> uint \<Rightarrow> uint \<Rightarrow> nat" where
  "MATRIX width i j = unat (i * width + j)"

definition mx_rd :: "(nat \<Rightarrow> sector_t) \<Rightarrow> uint \<Rightarrow> uint \<Rightarrow> uint \<Rightarrow> error + sector_t" where
  "mx_rd mx width i j =
     (if MATRIX width i j < ALGOT_CALC_MAX * ALGOT_CALC_MAX then Inr (mx (MATRIX width i j))
      else Inl Fault)"

definition mx_wr ::
  "(nat \<Rightarrow> sector_t) \<Rightarrow> uint \<Rightarrow> uint \<Rightarrow> uint \<Rightarrow> sector_t \<Rightarrow> error + (nat \<Rightarrow> sector_t)" where
  "mx_wr mx width i j v =
     (if MATRIX width i j < ALGOT_CALC_MAX * ALGOT_CALC_MAX then Inr (mx(MATRIX width i j := v))
      else Inl Fault)"

section \<open>Admission: \<open>algot_sort_in\<close>, \<open>algot_add_request\<close>\<close>

text \<open>
  The scan of \<open>algot_sort_in\<close>: \<open>list_for_each_entry\<close> stops at the first entry whose
  position is greater than that of \<open>rq\<close>, and \<open>list_add_tail\<close> links \<open>rq\<close> before it
  (at the tail when the scan ran to the end).
\<close>

fun sort_queue_insert :: "request \<Rightarrow> request list \<Rightarrow> request list" where
  "sort_queue_insert rq [] = [rq]"
| "sort_queue_insert rq (req # rest) =
     (if blk_rq_pos req > blk_rq_pos rq then rq # req # rest
      else req # sort_queue_insert rq rest)"

definition algot_sort_in :: "algot_data \<Rightarrow> request \<Rightarrow> algot_data" where
  "algot_sort_in nd rq =
     nd\<lparr>elevator_private0 := (elevator_private0 nd)(rq := ALGOT_PRI0_SORTED),
        sort_queue := sort_queue_insert rq (sort_queue nd),
        nsorted := nsorted nd + 1,
        dirty := dirty nd + 1\<rparr>"

text \<open>
  The loop that opens both \<open>algot_add_request\<close> and \<open>algot_program\<close>: while the wait
  queue is not empty and \<open>nsorted < ALGOT_CALC_MAX\<close>, its first request is unlinked and
  sorted in.
\<close>

function drain_wait_queue :: "algot_data \<Rightarrow> algot_data" where
  "drain_wait_queue nd =
     (if wait_queue nd \<noteq> [] \<and> unat (nsorted nd) < ALGOT_CALC_MAX
      then drain_wait_queue (algot_sort_in (list_del_init (hd (wait_queue nd)) nd) (hd (wait_queue nd)))
      else nd)"
  by pat_completeness auto
termination
proof (relation "measure (\<lambda>nd. length (wait_queue nd))")
  show "wf (measure (\<lambda>nd. length (wait_queue nd)))"
    by simp
next
  fix nd :: algot_data
  assume a: "wait_queue nd \<noteq> [] \<and> unat (nsorted nd) < ALGOT_CALC_MAX"
  then obtain r rest where w: "wait_queue nd = r # rest"
    by (cases "wait_queue nd") auto
  have "length (removeAll r rest) < Suc (length rest)"
    by (rule le_imp_less_Suc, rule length_removeAll_less_eq)
  then show "(algot_sort_in (list_del_init (hd (wait_queue nd)) nd) (hd (wait_queue nd)), nd)
      \<in> measure (\<lambda>nd. length (wait_queue nd))"
    by (simp add: w algot_sort_in_def list_del_init_def)
qed

declare drain_wait_queue.simps [simp del]

definition algot_add_request :: "algot_data \<Rightarrow> request \<Rightarrow> algot_data" where
  "algot_add_request nd0 rq =
     (let nd = drain_wait_queue nd0
      in if wait_queue nd = [] \<and> unat (nsorted nd) < ALGOT_CALC_MAX
         then algot_sort_in nd rq
         else nd\<lparr>elevator_private0 := (elevator_private0 nd)(rq := ALGOT_PRI0_UNSORTED),
                 wait_queue := wait_queue nd @ [rq]\<rparr>)"

section \<open>Merge notification: \<open>algot_merged_requests\<close>\<close>

text \<open>
  \<open>next\<close> was merged into \<open>rq\<close>. The write \<open>nd->sorted[ref] = ALGOT_REF_MERGED\<close> passes
  \<open>BUG_ON\<close> for \<open>ref = ALGOT_CALC_MAX\<close> and is then one entry past the array.
\<close>

definition algot_merged_requests :: "algot_data \<Rightarrow> request \<Rightarrow> request \<Rightarrow> error + algot_data" where
  "algot_merged_requests nd rq next =
     (let ref = elevator_private0 nd next
      in if ref \<noteq> ALGOT_PRI0_UNSORTED
         then let nd1 = nd\<lparr>nsorted := nsorted nd - 1\<rparr>
              in if ref \<noteq> ALGOT_PRI0_SORTED
                 then if unat ref > ALGOT_CALC_MAX then Inl BUG_ON_ref
                      else if unat ref < ALGOT_CALC_MAX
                      then Inr (list_del_init next
                                  (nd1\<lparr>sorted := (sorted nd1)(unat ref := ALGOT_REF_MERGED)\<rparr>))
                      else Inl Fault
                 else Inr (list_del_init next nd1)
         else Inr (list_del_init next nd))"

section \<open>Planner: \<open>algot_program\<close>\<close>

text \<open>
  The first pass over the sort queue: every request beyond the head position gets
  the next index, written to its \<open>elevator_private[0]\<close> and to \<open>sa[idx++]\<close>.
\<close>

fun plan_above ::
  "sector_t \<Rightarrow> request list \<Rightarrow> (nat \<Rightarrow> slot) \<times> (request \<Rightarrow> uintptr_t) \<times> uintptr_t
     \<Rightarrow> error + ((nat \<Rightarrow> slot) \<times> (request \<Rightarrow> uintptr_t) \<times> uintptr_t)" where
  "plan_above h [] st = Inr st"
| "plan_above h (req # rest) (sa, pv, idx) =
     (if blk_rq_pos req > h
      then if unat idx < ALGOT_CALC_MAX
           then plan_above h rest (sa(unat idx := Ref req), pv(req := idx), idx + 1)
           else Inl Fault
      else plan_above h rest (sa, pv, idx))"

text \<open>The second pass stops (\<open>break\<close>) at the first request beyond the head position.\<close>

fun plan_below ::
  "sector_t \<Rightarrow> request list \<Rightarrow> (nat \<Rightarrow> slot) \<times> (request \<Rightarrow> uintptr_t) \<times> uintptr_t
     \<Rightarrow> error + ((nat \<Rightarrow> slot) \<times> (request \<Rightarrow> uintptr_t) \<times> uintptr_t)" where
  "plan_below h [] st = Inr st"
| "plan_below h (req # rest) (sa, pv, idx) =
     (if blk_rq_pos req > h then Inr (sa, pv, idx)
      else if unat idx < ALGOT_CALC_MAX
           then plan_below h rest (sa(unat idx := Ref req), pv(req := idx), idx + 1)
           else Inl Fault)"

text \<open>\<open>#define MIN(a,b) (a<b)?a:b\<close>\<close>

definition MIN_sect :: "sector_t \<Rightarrow> sector_t \<Rightarrow> sector_t" where
  "MIN_sect a b = (if a < b then a else b)"

text \<open>
  \<open>sect_dist\<close> dereferences both entries. Its arguments are \<open>unsigned int\<close> values
  widened to \<open>unsigned long\<close>.
\<close>

definition sect_dist :: "(nat \<Rightarrow> slot) \<Rightarrow> uint \<Rightarrow> uint \<Rightarrow> error + sector_t" where
  "sect_dist sa i j =
     ebind (sorted_rd sa (unat i)) (\<lambda>si.
     ebind (sorted_rd sa (unat j)) (\<lambda>sj.
     ebind (slot_pos si) (\<lambda>p.
     ebind (slot_pos sj) (\<lambda>q. Inr (abs_long (p - q))))))"

text \<open>The body of the inner loop of the matrix computation, for one \<open>k\<close> and \<open>i\<close>.\<close>

definition dp_cell ::
  "(nat \<Rightarrow> slot) \<Rightarrow> uint \<Rightarrow> uint \<Rightarrow> uint \<Rightarrow> (nat \<Rightarrow> sector_t) \<Rightarrow> error + (nat \<Rightarrow> sector_t)" where
  "dp_cell sa ns k i mx =
     (let j = k + i in
      ebind (sect_dist sa i (i + 1)) (\<lambda>d1.
      ebind (mx_rd mx ns (i + 1) j) (\<lambda>m1.
      ebind (sect_dist sa i j) (\<lambda>d2.
      ebind (mx_rd mx ns j (i + 1)) (\<lambda>m2.
      ebind (mx_wr mx ns i j (MIN_sect (ucast k * d1 + m1) (ucast k * d2 + m2))) (\<lambda>mx1.
      ebind (sect_dist sa j (j - 1)) (\<lambda>d3.
      ebind (mx_rd mx1 ns (j - 1) i) (\<lambda>m3.
      ebind (sect_dist sa i j) (\<lambda>d4.
      ebind (mx_rd mx1 ns i (j - 1)) (\<lambda>m4.
      mx_wr mx1 ns j i (MIN_sect (ucast k * d3 + m3) (ucast k * d4 + m4))))))))))))"

text \<open>
  \<open>algot_program\<close>. The head position is read before the wait queue is drained. The
  loops over \<open>i\<close> and \<open>k\<close> run over the ranges the C loops count through; for
  \<open>ns > ALGOT_CALC_MAX\<close> the loop over the diagonal leaves the matrix before the
  loop over \<open>k\<close> starts.
\<close>

definition algot_program :: "algot_data \<Rightarrow> error + algot_data" where
  "algot_program nd0 =
     (let rw = rw_head nd0;
          nd = drain_wait_queue nd0;
          ns = nsorted nd
      in ebind (plan_above rw (sort_queue nd) (sorted nd, elevator_private0 nd, 0)) (\<lambda>st1.
         ebind (plan_below rw (sort_queue nd) st1) (\<lambda>(sa, pv, idx).
         ebind (efold (\<lambda>i mx. mx_wr mx ns (of_nat i) (of_nat i) 0) [0..<unat ns]
                  (cost_matrix nd)) (\<lambda>mx0.
         ebind (efold (\<lambda>k. efold (\<lambda>i. dp_cell sa ns (of_nat k) (of_nat i)) [0..<unat ns - k])
                  [1..<Suc (unat ns)] mx0) (\<lambda>mx.
         Inr (nd\<lparr>opt_ns := ns, sorted := sa, elevator_private0 := pv, cost_matrix := mx,
                  opt_s := 0, opt_e := ns - 1, dirty := 0\<rparr>))))))"

section \<open>Dispatcher: \<open>pick_opt\<close>, \<open>algot_dispatch\<close>\<close>

text \<open>\<open>while (sorted[s] == ALGOT_REF_MERGED) s++;\<close>\<close>

function skip_merged_up :: "(nat \<Rightarrow> slot) \<Rightarrow> uint \<Rightarrow> error + uint" where
  "skip_merged_up sa s =
     (if \<not> unat s < ALGOT_CALC_MAX then Inl Fault
      else if sa (unat s) = ALGOT_REF_MERGED then skip_merged_up sa (s + 1)
      else Inr s)"
  by pat_completeness auto
termination
proof (relation "measure (\<lambda>(sa, s). ALGOT_CALC_MAX - unat s)")
  show "wf (measure (\<lambda>(sa, s). ALGOT_CALC_MAX - unat s))"
    by simp
next
  fix sa :: "nat \<Rightarrow> slot" and s :: uint
  assume "\<not> \<not> unat s < ALGOT_CALC_MAX"
  then have b: "unat s < 128"
    by (simp add: ALGOT_CALC_MAX_def)
  then have "unat (s + 1) = unat s + 1"
    by (simp add: unat_word_ariths)
  with b show "((sa, s + 1), (sa, s)) \<in> measure (\<lambda>(sa, s). ALGOT_CALC_MAX - unat s)"
    by (simp add: ALGOT_CALC_MAX_def)
qed

text \<open>\<open>while (sorted[e] == ALGOT_REF_MERGED) e--;\<close>\<close>

function skip_merged_down :: "(nat \<Rightarrow> slot) \<Rightarrow> uint \<Rightarrow> error + uint" where
  "skip_merged_down sa e =
     (if \<not> unat e < ALGOT_CALC_MAX then Inl Fault
      else if sa (unat e) = ALGOT_REF_MERGED then skip_merged_down sa (e - 1)
      else Inr e)"
  by pat_completeness auto
termination
proof (relation "measure (\<lambda>(sa, e). if unat e < ALGOT_CALC_MAX then Suc (unat e) else 0)")
  show "wf (measure (\<lambda>(sa, e). if unat e < ALGOT_CALC_MAX then Suc (unat e) else 0))"
    by simp
next
  fix sa :: "nat \<Rightarrow> slot" and e :: uint
  assume "\<not> \<not> unat e < ALGOT_CALC_MAX"
  then have b: "unat e < 128"
    by (simp add: ALGOT_CALC_MAX_def)
  show "((sa, e - 1), (sa, e))
      \<in> measure (\<lambda>(sa, e). if unat e < ALGOT_CALC_MAX then Suc (unat e) else 0)"
  proof (cases "e = 0")
    case True
    then show ?thesis
      by (simp add: ALGOT_CALC_MAX_def unsigned_minus_1_eq_mask mask_eq_exp_minus_1)
  next
    case False
    then have "unat (e - 1) = unat e - 1"
      by (simp add: unat_minus_one)
    moreover from False have "unat e \<noteq> 0"
      by (simp add: unat_eq_0)
    ultimately show ?thesis
      using b by (simp add: ALGOT_CALC_MAX_def)
  qed
qed

declare skip_merged_up.simps [simp del]
declare skip_merged_down.simps [simp del]

text \<open>
  The first part of \<open>pick_opt\<close>, up to the choice of the index \<open>i\<close>: both boundaries
  skip merged entries, then either the cheaper end is chosen and its boundary moved,
  or the only index left is chosen and the matrix marked dirty.
\<close>

definition pick_slot :: "algot_data \<Rightarrow> error + (uint \<times> algot_data)" where
  "pick_slot nd =
     ebind (skip_merged_up (sorted nd) (opt_s nd)) (\<lambda>s.
     ebind (skip_merged_down (sorted nd) (opt_e nd)) (\<lambda>e.
       if s \<noteq> e
       then ebind (slot_pos (sorted nd (unat s))) (\<lambda>ps.
            ebind (mx_rd (cost_matrix nd) (opt_ns nd) s e) (\<lambda>ml.
            ebind (slot_pos (sorted nd (unat e))) (\<lambda>pe.
            ebind (mx_rd (cost_matrix nd) (opt_ns nd) e s) (\<lambda>mr.
              let val_l = abs_int (e - s + 1) * abs_long (rw_head nd - ps) + ml;
                  val_r = abs_int (e - s + 1) * abs_long (rw_head nd - pe) + mr
              in if val_l \<le> val_r then Inr (s, nd\<lparr>opt_s := s + 1\<rparr>)
                 else Inr (e, nd\<lparr>opt_e := e - 1\<rparr>)))))
       else Inr (s, nd\<lparr>dirty := ALGOT_DIRTY_COUNT\<rparr>)))"

text \<open>
  \<open>pick_opt\<close>. A chosen entry that is \<open>ALGOT_REF_DISPATCHED\<close> is \<open>BUG()\<close>; on
  \<open>ALGOT_REF_MERGED\<close> the function calls itself; a request is marked dispatched in the
  array, becomes the head position, is unlinked and is returned. The call to itself
  is never made: \<open>pick_slot\<close> returns an index whose entry is not merged.
\<close>

function pick_opt :: "algot_data \<Rightarrow> error + (request \<times> algot_data)" where
  "pick_opt nd =
     (case pick_slot nd of
        Inl err \<Rightarrow> Inl err
      | Inr (i, nd1) \<Rightarrow>
          (case sorted nd1 (unat i) of
             ALGOT_REF_DISPATCHED \<Rightarrow> Inl BUG_dispatched
           | ALGOT_REF_MERGED \<Rightarrow> pick_opt nd1
           | Ref rq \<Rightarrow>
               Inr (rq, (list_del_init rq
                          (nd1\<lparr>sorted := (sorted nd1)(unat i := ALGOT_REF_DISPATCHED),
                               rw_head := blk_rq_pos rq\<rparr>))
                        \<lparr>nsorted := nsorted nd1 - 1\<rparr>)))"
  by pat_completeness auto
termination
proof (relation "{}")
  show "wf {}"
    by simp
next
  fix nd :: algot_data and x2 :: "uint \<times> algot_data" and i :: uint and nd1 :: algot_data
  assume sel: "pick_slot nd = Inr x2" and x2: "(i, nd1) = x2"
    and mg: "sorted nd1 (unat i) = ALGOT_REF_MERGED"
  have up: "skip_merged_up sa s = Inr r \<Longrightarrow> sa (unat r) \<noteq> ALGOT_REF_MERGED"
    for sa :: "nat \<Rightarrow> slot" and s r :: uint
  proof (induction sa s rule: skip_merged_up.induct)
    case (1 sa s)
    then show ?case
      by (subst (asm) (2) skip_merged_up.simps) (auto split: if_splits)
  qed
  have down: "skip_merged_down sa e = Inr r \<Longrightarrow> sa (unat r) \<noteq> ALGOT_REF_MERGED"
    for sa :: "nat \<Rightarrow> slot" and e r :: uint
  proof (induction sa e rule: skip_merged_down.induct)
    case (1 sa e)
    then show ?case
      by (subst (asm) (2) skip_merged_down.simps) (auto split: if_splits)
  qed
  from sel x2 have "sorted nd1 (unat i) \<noteq> ALGOT_REF_MERGED"
    by (auto simp: pick_slot_def ebind_def Let_def dest: up down
        split: sum.splits if_splits)
  with mg show "(nd1, nd) \<in> {}"
    by simp
qed

declare pick_opt.simps [simp del]

text \<open>
  \<open>algot_dispatch\<close>: nothing to do when both queues are empty; otherwise the planner
  runs when \<open>dirty\<close> has reached \<open>ALGOT_DIRTY_COUNT\<close>, and \<open>pick_opt\<close> yields the
  request handed to \<open>elv_dispatch_sort\<close>.
\<close>

definition algot_dispatch :: "algot_data \<Rightarrow> error + (request option \<times> algot_data)" where
  "algot_dispatch nd =
     (if sort_queue nd \<noteq> [] \<or> wait_queue nd \<noteq> []
      then ebind (if ALGOT_DIRTY_COUNT \<le>s dirty nd then algot_program nd else Inr nd) (\<lambda>nd1.
           ebind (pick_opt nd1) (\<lambda>(rq, nd2). Inr (Some rq, nd2)))
      else Inr (None, nd))"

section \<open>Lifecycle: \<open>algot_init_queue\<close>, \<open>algot_exit_queue\<close>\<close>

text \<open>
  The arguments of \<open>algot_init_queue\<close> are the results of its allocations, in the
  order of the calls: \<open>kmalloc_node\<close> for the scheduler data, \<open>kmalloc_node\<close> and
  (consulted only when that fails) \<open>vmalloc_node\<close> for the cost matrix, \<open>kmalloc_node\<close>
  for the array \<open>sorted\<close>. \<open>None\<close> is the null pointer; \<open>Some\<close> carries the contents of
  the fresh memory, which is not initialised. The fields are written through \<open>nd\<close>
  before \<open>nd\<close> is tested: with a null \<open>nd\<close> the first store is an invalid access. The
  result \<open>Inr None\<close> is the reported failure (\<open>return NULL\<close>).
\<close>

definition algot_init_queue ::
  "algot_data option \<Rightarrow> (nat \<Rightarrow> sector_t) option \<Rightarrow> (nat \<Rightarrow> sector_t) option
     \<Rightarrow> (nat \<Rightarrow> slot) option \<Rightarrow> error + algot_data option" where
  "algot_init_queue k_nd k_matrix v_matrix k_sorted =
     (case k_nd of
        None \<Rightarrow> Inl Fault
      | Some mem \<Rightarrow>
          let nd = mem\<lparr>nsorted := 0, rw_head := 0, dirty := ALGOT_DIRTY_COUNT - 1,
                       wait_queue := [], sort_queue := [], vloc := False\<rparr>;
              (matrix, vl) = (case k_matrix of Some m \<Rightarrow> (Some m, False) | None \<Rightarrow> (v_matrix, True))
          in (case (k_sorted, matrix) of
                (Some sa, Some m) \<Rightarrow> Inr (Some (nd\<lparr>cost_matrix := m, vloc := vl, sorted := sa\<rparr>))
              | _ \<Rightarrow> Inr None))"

text \<open>\<open>algot_exit_queue\<close>: \<open>BUG_ON(!list_empty(&nd->sort_queue))\<close>, then the memory is freed.\<close>

definition algot_exit_queue :: "algot_data \<Rightarrow> error + unit" where
  "algot_exit_queue nd = (if sort_queue nd \<noteq> [] then Inl BUG_ON_queue else Inr ())"

section \<open>Scenarios and concrete states\<close>

text \<open>\<open>dispatch_n n\<close> calls \<open>algot_dispatch\<close> \<open>n\<close> times and collects what each call hands out.\<close>

fun dispatch_n :: "nat \<Rightarrow> algot_data \<Rightarrow> error + (request option list \<times> algot_data)" where
  "dispatch_n 0 nd = Inr ([], nd)"
| "dispatch_n (Suc n) nd =
     ebind (algot_dispatch nd) (\<lambda>(r, nd1).
     ebind (dispatch_n n nd1) (\<lambda>(rs, nd2). Inr (r # rs, nd2)))"

text \<open>The order of the sort queue: positions do not decrease.\<close>

definition precedes :: "request \<Rightarrow> request \<Rightarrow> bool" where
  "precedes a b = (blk_rq_pos a \<le> blk_rq_pos b)"

text \<open>
  Memory whose bytes are all zero, as one possible content of fresh memory, and the
  scheduler that \<open>algot_init_queue\<close> makes of it.
\<close>

definition zeroed :: algot_data where
  "zeroed =
     \<lparr>wait_queue = [], sort_queue = [], sorted = (\<lambda>_. ALGOT_REF_MERGED),
      cost_matrix = (\<lambda>_. 0), rw_head = 0, nsorted = 0, opt_s = 0, opt_e = 0, opt_ns = 0,
      dirty = 0, vloc = False, elevator_private0 = (\<lambda>_. 0)\<rparr>"

definition fresh_queue :: algot_data where
  "fresh_queue = zeroed\<lparr>dirty := 7\<rparr>"

text \<open>\<open>reqs n\<close>: \<open>n\<close> different requests.\<close>

definition reqs :: "nat \<Rightarrow> request list" where
  "reqs n = map (\<lambda>i. Request i (of_nat i)) [0..<n]"

text \<open>
  The scheduler after one request at position 10 was added to \<open>fresh_queue\<close> and
  planned, and the scheduler after that request was dispatched.
\<close>

definition one_planned :: algot_data where
  "one_planned =
     zeroed\<lparr>sort_queue := [Request 0 10], nsorted := 1, opt_ns := 1,
            sorted := (\<lambda>_. ALGOT_REF_MERGED)(0 := Ref (Request 0 10))\<rparr>"

definition one_dispatched :: algot_data where
  "one_dispatched =
     zeroed\<lparr>opt_ns := 1, dirty := 8, rw_head := 10,
            sorted := (\<lambda>_. ALGOT_REF_MERGED)(0 := ALGOT_REF_DISPATCHED)\<rparr>"

section \<open>Consistency of the scheduler state\<close>

text \<open>
  Consistency of the two queues: no request is linked twice, the sort queue is
  ordered by position, \<open>nsorted\<close> is its length and at most \<open>ALGOT_CALC_MAX\<close>, the
  requests of the wait queue are tagged unsorted and those of the sort queue are not.
\<close>

definition queues_ok :: "algot_data \<Rightarrow> bool" where
  "queues_ok nd \<longleftrightarrow>
     distinct (sort_queue nd @ wait_queue nd)
     \<and> sorted_wrt precedes (sort_queue nd)
     \<and> length (sort_queue nd) = unat (nsorted nd)
     \<and> unat (nsorted nd) \<le> ALGOT_CALC_MAX
     \<and> (\<forall>r \<in> set (wait_queue nd). elevator_private0 nd r = ALGOT_PRI0_UNSORTED)
     \<and> (\<forall>r \<in> set (sort_queue nd). elevator_private0 nd r \<noteq> ALGOT_PRI0_UNSORTED)"

text \<open>
  A valid plan: the window \<open>[opt_s, opt_e]\<close> lies in the array, no entry below it
  refers to a request, and every entry in it is either merged or refers to a request
  of the sort queue whose \<open>elevator_private[0]\<close> is the index of the entry.
\<close>

definition slot_dead :: "slot \<Rightarrow> bool" where
  "slot_dead sl = (case sl of Ref r \<Rightarrow> False | _ \<Rightarrow> True)"

definition slot_planned :: "algot_data \<Rightarrow> nat \<Rightarrow> bool" where
  "slot_planned nd i =
     (case sorted nd i of
        Ref r \<Rightarrow> r \<in> set (sort_queue nd) \<and> elevator_private0 nd r = of_nat i
      | ALGOT_REF_MERGED \<Rightarrow> True
      | ALGOT_REF_DISPATCHED \<Rightarrow> False)"

definition plan_ok :: "algot_data \<Rightarrow> bool" where
  "plan_ok nd \<longleftrightarrow>
     unat (opt_s nd) \<le> unat (opt_e nd) \<and> unat (opt_e nd) < ALGOT_CALC_MAX
     \<and> (\<forall>i < ALGOT_CALC_MAX.
           (i < unat (opt_s nd) \<longrightarrow> slot_dead (sorted nd i))
           \<and> (unat (opt_s nd) \<le> i \<and> i \<le> unat (opt_e nd) \<longrightarrow> slot_planned nd i))"

text \<open>
  The invariant of the scheduler: the queues are consistent, and the plan is valid
  unless the next dispatch runs the planner first (\<open>dirty\<close> has reached
  \<open>ALGOT_DIRTY_COUNT\<close>) or the scheduler is as initialised, with nothing to dispatch.
\<close>

definition sched_inv :: "algot_data \<Rightarrow> bool" where
  "sched_inv nd \<longleftrightarrow>
     queues_ok nd
     \<and> (ALGOT_DIRTY_COUNT \<le>s dirty nd \<or> plan_ok nd
         \<or> (sort_queue nd = [] \<and> wait_queue nd = [] \<and> dirty nd = ALGOT_DIRTY_COUNT - 1))"

text \<open>
  What the two passes of the planner write, for the list of requests they visit; and
  the order in which they visit a sort queue: the requests beyond the head position,
  then the others.
\<close>

fun plan_fill ::
  "request list \<Rightarrow> (nat \<Rightarrow> slot) \<times> (request \<Rightarrow> uintptr_t) \<times> uintptr_t
     \<Rightarrow> (nat \<Rightarrow> slot) \<times> (request \<Rightarrow> uintptr_t) \<times> uintptr_t" where
  "plan_fill [] st = st"
| "plan_fill (r # rs) (sa, pv, idx) = plan_fill rs (sa(unat idx := Ref r), pv(r := idx), idx + 1)"

definition cscan_order :: "sector_t \<Rightarrow> request list \<Rightarrow> request list" where
  "cscan_order h q = filter (\<lambda>r. h < blk_rq_pos r) q @ filter (\<lambda>r. \<not> h < blk_rq_pos r) q"

section \<open>Sequences of calls\<close>

text \<open>
  The calls the block layer makes, and a sequence of them run from a state. A call
  is allowed when it adds a request that is in neither queue, or reports the merge of
  a request that is in one of the queues; dispatching is always allowed.
\<close>

datatype event = Add request | Merged request request | Dispatch

fun step :: "algot_data \<Rightarrow> event \<Rightarrow> error + algot_data" where
  "step nd (Add rq) = Inr (algot_add_request nd rq)"
| "step nd (Merged rq next) = algot_merged_requests nd rq next"
| "step nd Dispatch = ebind (algot_dispatch nd) (\<lambda>(rq, nd'). Inr nd')"

fun run :: "algot_data \<Rightarrow> event list \<Rightarrow> error + algot_data" where
  "run nd [] = Inr nd"
| "run nd (ev # evs) = ebind (step nd ev) (\<lambda>nd'. run nd' evs)"

fun allowed :: "algot_data \<Rightarrow> event \<Rightarrow> bool" where
  "allowed nd (Add rq) \<longleftrightarrow> rq \<notin> set (sort_queue nd) \<and> rq \<notin> set (wait_queue nd)"
| "allowed nd (Merged rq next) \<longleftrightarrow> next \<in> set (sort_queue nd) \<or> next \<in> set (wait_queue nd)"
| "allowed nd Dispatch \<longleftrightarrow> True"

fun correct_use :: "algot_data \<Rightarrow> event list \<Rightarrow> bool" where
  "correct_use nd [] \<longleftrightarrow> True"
| "correct_use nd (ev # evs) \<longleftrightarrow>
     allowed nd ev \<and> (case step nd ev of Inl err \<Rightarrow> True | Inr nd' \<Rightarrow> correct_use nd' evs)"

text \<open>
  The counter \<open>dirty\<close> wraps around at \<open>2 ^ 31\<close>. One call of \<open>algot_add_request\<close>
  moves at most \<open>ALGOT_CALC_MAX\<close> requests into the sort queue, and each of them adds
  one to the counter: the counter has room when this cannot take it beyond the
  largest \<open>int\<close>. A sequence of calls keeps the counter in range when the counter has
  room before every call that adds a request.
\<close>

definition dirty_room :: "algot_data \<Rightarrow> bool" where
  "dirty_room nd \<longleftrightarrow> sint (dirty nd) + int ALGOT_CALC_MAX < 2 ^ 31"

fun no_overflow :: "algot_data \<Rightarrow> event list \<Rightarrow> bool" where
  "no_overflow nd [] \<longleftrightarrow> True"
| "no_overflow nd (ev # evs) \<longleftrightarrow>
     (case ev of Add rq \<Rightarrow> dirty_room nd | _ \<Rightarrow> True)
     \<and> (case step nd ev of Inl err \<Rightarrow> True | Inr nd' \<Rightarrow> no_overflow nd' evs)"

text \<open>
  After one request at position 10 was dispatched, four more are added: two beyond
  the head position and two before it.
\<close>

definition wrap_pending :: algot_data where
  "wrap_pending = foldl algot_add_request one_dispatched
     [Request 1 50, Request 2 5, Request 3 80, Request 4 7]"

text \<open>
  A sequence of calls that empties the window by a merge. A request is added and
  dispatched. Three requests are added and planned in the order 101, 200, 99; the
  requests at 99 and at 101 are dispatched. A request at 150 is added, and the
  request at 200, the only one left in the window, is merged into it.
\<close>

definition emptied_window_trace :: "event list" where
  "emptied_window_trace =
     [Add (Request 0 100), Dispatch, Add (Request 1 101), Add (Request 2 200), Add (Request 3 99),
      Dispatch, Dispatch, Add (Request 4 150), Merged (Request 4 150) (Request 2 200)]"

text \<open>
  A sequence of calls that wraps the counter \<open>dirty\<close>. After \<open>wrap_prefix\<close> the only
  entry of the window is dispatched, one request is in the sort queue and \<open>dirty\<close> is
  10: the state \<open>spent_window 10\<close>. Each \<open>refill\<close> adds a request and merges it into
  the one in the queue, which adds one to \<open>dirty\<close> and changes nothing else; after
  \<open>wrap_cycles = 2 ^ 31 - 10\<close> of them the counter is \<open>- 2 ^ 31\<close>.
\<close>

definition wrap_prefix :: "event list" where
  "wrap_prefix =
     [Add (Request 0 10), Dispatch, Add (Request 1 20), Add (Request 2 30),
      Merged (Request 1 20) (Request 2 30)]"

definition refill :: "event list" where
  "refill = [Add (Request 2 30), Merged (Request 1 20) (Request 2 30)]"

definition wrap_cycles :: nat where
  "wrap_cycles = 2147483638"

definition spent_window :: "c_int \<Rightarrow> algot_data" where
  "spent_window d =
     one_dispatched\<lparr>sort_queue := [Request 1 20], nsorted := 1, dirty := d,
       elevator_private0 := (\<lambda>_. 0)(Request 1 20 := ALGOT_PRI0_SORTED,
                                          Request 2 30 := ALGOT_PRI0_SORTED)\<rparr>"

text \<open>
  Two states with merged entries at the ends of the window. \<open>merged_far_end\<close>: three
  requests were planned, the first was dispatched and the third was merged into the
  second; the window is \<open>[1, 2]\<close> and its last entry is merged. \<open>merged_ends\<close>: five
  requests were planned, the first was dispatched, the second was merged into the
  third and the fifth into the fourth; the window is \<open>[1, 4]\<close> and both of its ends
  are merged.
\<close>

definition merged_far_end :: algot_data where
  "merged_far_end =
     \<lparr>wait_queue = [], sort_queue = [Request 2 20],
      sorted = (\<lambda>_. ALGOT_REF_MERGED)
        (0 := ALGOT_REF_DISPATCHED, 1 := Ref (Request 2 20), 2 := ALGOT_REF_MERGED),
      cost_matrix = (\<lambda>_. 0)
        (0 := 0, 1 := 10, 2 := 30, 3 := 10, 4 := 0, 5 := 10, 6 := 30, 7 := 10, 8 := 0),
      rw_head = 10, nsorted = 1, opt_s = 1, opt_e = 2, opt_ns = 3, dirty = 0, vloc = False,
      elevator_private0 = (\<lambda>_. 0)
        (Request 1 10 := 0, Request 2 20 := 1, Request 3 30 := 2)\<rparr>"

definition merged_ends :: algot_data where
  "merged_ends =
     \<lparr>wait_queue = [], sort_queue = [Request 3 30, Request 4 40],
      sorted = (\<lambda>_. ALGOT_REF_MERGED)
        (0 := ALGOT_REF_DISPATCHED, 1 := ALGOT_REF_MERGED, 2 := Ref (Request 3 30),
         3 := Ref (Request 4 40), 4 := ALGOT_REF_MERGED),
      cost_matrix = (\<lambda>_. 0)
        (0 := 0, 1 := 10, 2 := 30, 3 := 60, 4 := 100,
         5 := 10, 6 := 0, 7 := 10, 8 := 30, 9 := 60,
         10 := 30, 11 := 10, 12 := 0, 13 := 10, 14 := 30,
         15 := 60, 16 := 30, 17 := 10, 18 := 0, 19 := 10,
         20 := 100, 21 := 60, 22 := 30, 23 := 10, 24 := 0),
      rw_head = 10, nsorted = 2, opt_s = 1, opt_e = 4, opt_ns = 5, dirty = 0, vloc = False,
      elevator_private0 = (\<lambda>_. 0)
        (Request 1 10 := 0, Request 2 20 := 1, Request 3 30 := 2, Request 4 40 := 3,
         Request 5 50 := 4)\<rparr>"

section \<open>Basic facts\<close>

lemma ebind_Inr: "ebind (Inr x) f = f x"
  by (simp add: ebind_def)

lemma ebind_Inl: "ebind (Inl err) f = Inl err"
  by (simp add: ebind_def)

lemma dispatch_n_numeral:
  "dispatch_n (numeral k) nd =
     ebind (algot_dispatch nd) (\<lambda>(r, nd1).
     ebind (dispatch_n (pred_numeral k) nd1) (\<lambda>(rs, nd2). Inr (r # rs, nd2)))"
  by (simp add: numeral_eq_Suc)

lemma init_zeroed:
  "algot_init_queue (Some zeroed) (Some (\<lambda>_. 0)) None (Some (\<lambda>_. ALGOT_REF_MERGED))
     = Inr (Some fresh_queue)"
  by (simp add: algot_init_queue_def fresh_queue_def zeroed_def ALGOT_DIRTY_COUNT_def)

lemma drain_wait_queue_empty: "wait_queue nd = [] \<Longrightarrow> drain_wait_queue nd = nd"
  by (simp add: drain_wait_queue.simps)

lemma drain_wait_queue_full:
  "\<not> unat (nsorted nd) < ALGOT_CALC_MAX \<Longrightarrow> drain_wait_queue nd = nd"
  by (simp add: drain_wait_queue.simps)

lemma unat_inc_small: "unat (n :: uint) < 128 \<Longrightarrow> unat (n + 1) = Suc (unat n)"
  by (simp add: unat_word_ariths)

lemma sort_queue_insert_conv:
  "sort_queue_insert rq q =
     takeWhile (\<lambda>r. \<not> blk_rq_pos r > blk_rq_pos rq) q
       @ rq # dropWhile (\<lambda>r. \<not> blk_rq_pos r > blk_rq_pos rq) q"
  by (induction q) auto

lemma set_sort_queue_insert: "set (sort_queue_insert rq q) = insert rq (set q)"
  by (induction q) auto

lemma length_sort_queue_insert: "length (sort_queue_insert rq q) = Suc (length q)"
  by (induction q) auto

lemma sorted_sort_queue_insert:
  "sorted_wrt precedes q \<Longrightarrow> sorted_wrt precedes (sort_queue_insert rq q)"
  by (induction q) (auto simp: set_sort_queue_insert precedes_def)

lemma skip_merged_up_stop:
  "unat s < ALGOT_CALC_MAX \<Longrightarrow> sa (unat s) \<noteq> ALGOT_REF_MERGED \<Longrightarrow> skip_merged_up sa s = Inr s"
  by (simp add: skip_merged_up.simps)

lemma skip_merged_down_stop:
  "unat e < ALGOT_CALC_MAX \<Longrightarrow> sa (unat e) \<noteq> ALGOT_REF_MERGED \<Longrightarrow> skip_merged_down sa e = Inr e"
  by (simp add: skip_merged_down.simps)

lemma skip_merged_up_Inr:
  "skip_merged_up sa s = Inr r \<Longrightarrow> sa (unat r) \<noteq> ALGOT_REF_MERGED \<and> unat r < ALGOT_CALC_MAX"
proof (induction sa s rule: skip_merged_up.induct)
  case (1 sa s)
  then show ?case
    by (subst (asm) (2) skip_merged_up.simps) (auto split: if_splits)
qed

lemma skip_merged_down_Inr:
  "skip_merged_down sa e = Inr r \<Longrightarrow> sa (unat r) \<noteq> ALGOT_REF_MERGED \<and> unat r < ALGOT_CALC_MAX"
proof (induction sa e rule: skip_merged_down.induct)
  case (1 sa e)
  then show ?case
    by (subst (asm) (2) skip_merged_down.simps) (auto split: if_splits)
qed

lemma pick_slot_sorted: "pick_slot nd = Inr (i, nd1) \<Longrightarrow> sorted nd1 = sorted nd"
  by (auto simp: pick_slot_def ebind_def Let_def split: sum.splits if_splits)

lemma pick_slot_not_merged:
  "pick_slot nd = Inr (i, nd1) \<Longrightarrow> sorted nd1 (unat i) \<noteq> ALGOT_REF_MERGED"
  by (auto simp: pick_slot_def ebind_def Let_def
        dest: skip_merged_up_Inr skip_merged_down_Inr split: sum.splits if_splits)

text \<open>\<open>pick_opt\<close> without the call to itself.\<close>

lemma pick_opt_unfold:
  "pick_opt nd =
     ebind (pick_slot nd) (\<lambda>(i, nd1).
       case sorted nd1 (unat i) of
         Ref rq \<Rightarrow>
           Inr (rq, (list_del_init rq
                      (nd1\<lparr>sorted := (sorted nd1)(unat i := ALGOT_REF_DISPATCHED),
                           rw_head := blk_rq_pos rq\<rparr>))
                    \<lparr>nsorted := nsorted nd1 - 1\<rparr>)
       | _ \<Rightarrow> Inl BUG_dispatched)"
  by (subst pick_opt.simps)
     (auto simp: ebind_def dest: pick_slot_not_merged split: sum.splits slot.splits)

lemma drain_nsorted_le:
  "unat (nsorted nd) \<le> ALGOT_CALC_MAX \<Longrightarrow> unat (nsorted (drain_wait_queue nd)) \<le> ALGOT_CALC_MAX"
proof (induction nd rule: drain_wait_queue.induct)
  case (1 nd)
  show ?case
  proof (cases "wait_queue nd \<noteq> [] \<and> unat (nsorted nd) < ALGOT_CALC_MAX")
    case True
    then have "unat (nsorted nd + 1) \<le> ALGOT_CALC_MAX"
      by (simp add: ALGOT_CALC_MAX_def unat_inc_small)
    with True 1 show ?thesis
      by (subst drain_wait_queue.simps) (simp add: algot_sort_in_def list_del_init_def)
  next
    case False
    with 1 show ?thesis
      by (subst drain_wait_queue.simps) auto
  qed
qed

lemma add_request_nsorted_le:
  "unat (nsorted nd) \<le> ALGOT_CALC_MAX
     \<Longrightarrow> unat (nsorted (algot_add_request nd rq)) \<le> ALGOT_CALC_MAX"
  using drain_nsorted_le [of nd]
  by (auto simp: algot_add_request_def Let_def algot_sort_in_def ALGOT_CALC_MAX_def unat_inc_small)

text \<open>The facts that evaluate a scenario step by step.\<close>

lemmas scenario_simps =
  algot_init_queue_def algot_add_request_def drain_wait_queue_empty algot_sort_in_def
  ALGOT_CALC_MAX_def ALGOT_DIRTY_COUNT_def Let_def algot_program_def ebind_Inr ebind_Inl
  upt_rec mx_wr_def mx_rd_def MATRIX_def dp_cell_def sect_dist_def sorted_rd_def slot_pos_def
  abs_long_def abs_int_def word_sless_alt word_sle_eq MIN_sect_def algot_dispatch_def
  pick_opt_unfold
  pick_slot_def skip_merged_up_stop skip_merged_down_stop list_del_init_def

lemma one_planned_reached:
  "algot_program (algot_add_request fresh_queue (Request 0 10)) = Inr one_planned"
  by (simp add: scenario_simps fresh_queue_def zeroed_def one_planned_def fun_upd_idem)

lemma one_dispatched_reached:
  "algot_dispatch (algot_add_request fresh_queue (Request 0 10))
     = Inr (Some (Request 0 10), one_dispatched)"
  by (simp add: scenario_simps fresh_queue_def zeroed_def one_dispatched_def fun_upd_idem)

lemma reqs_Suc: "reqs (Suc n) = reqs n @ [Request n (of_nat n)]"
  by (simp add: reqs_def)

lemma reqs_fresh: "Request n p \<notin> set (reqs n)"
  by (auto simp: reqs_def)

lemma length_reqs: "length (reqs n) = n"
  by (simp add: reqs_def)

lemma add_request_room:
  "wait_queue nd = [] \<Longrightarrow> unat (nsorted nd) < ALGOT_CALC_MAX
     \<Longrightarrow> algot_add_request nd rq = algot_sort_in nd rq"
  by (simp add: algot_add_request_def drain_wait_queue_empty)

lemma sort_in_fields [simp]:
  "wait_queue (algot_sort_in nd rq) = wait_queue nd"
  "nsorted (algot_sort_in nd rq) = nsorted nd + 1"
  "sort_queue (algot_sort_in nd rq) = sort_queue_insert rq (sort_queue nd)"
  "dirty (algot_sort_in nd rq) = dirty nd + 1"
  "sorted (algot_sort_in nd rq) = sorted nd"
  "opt_s (algot_sort_in nd rq) = opt_s nd"
  "opt_e (algot_sort_in nd rq) = opt_e nd"
  "rw_head (algot_sort_in nd rq) = rw_head nd"
  "elevator_private0 (algot_sort_in nd rq) = (elevator_private0 nd)(rq := ALGOT_PRI0_SORTED)"
  by (simp_all add: algot_sort_in_def)

lemma foldl_add_room:
  "wait_queue nd = [] \<Longrightarrow> unat (nsorted nd) + length rs \<le> ALGOT_CALC_MAX
     \<Longrightarrow> foldl algot_add_request nd rs = foldl algot_sort_in nd rs"
proof (induction rs arbitrary: nd)
  case Nil
  then show ?case by simp
next
  case (Cons r rs)
  from Cons.prems have room: "unat (nsorted nd) < ALGOT_CALC_MAX"
    by simp
  then have "unat (nsorted nd + 1) = Suc (unat (nsorted nd))"
    by (simp add: ALGOT_CALC_MAX_def unat_inc_small)
  with Cons.prems have "foldl algot_add_request (algot_sort_in nd r) rs
      = foldl algot_sort_in (algot_sort_in nd r) rs"
    by (intro Cons.IH) simp_all
  with Cons.prems room show ?case
    by (simp add: add_request_room)
qed

lemma foldl_sort_in_fields:
  "wait_queue (foldl algot_sort_in nd rs) = wait_queue nd"
  "nsorted (foldl algot_sort_in nd rs) = nsorted nd + of_nat (length rs)"
  "set (sort_queue (foldl algot_sort_in nd rs)) = set (sort_queue nd) \<union> set rs"
  "elevator_private0 (foldl algot_sort_in nd rs) r
     = (if r \<in> set rs then ALGOT_PRI0_SORTED else elevator_private0 nd r)"
  by (induction rs arbitrary: nd) (auto simp: set_sort_queue_insert)

lemma merged_requests_sorted_tag:
  "elevator_private0 nd next = ALGOT_PRI0_SORTED
     \<Longrightarrow> algot_merged_requests nd rq next
           = Inr (list_del_init next (nd\<lparr>nsorted := nsorted nd - 1\<rparr>))"
  by (simp add: algot_merged_requests_def ALGOT_PRI0_SORTED_def ALGOT_PRI0_UNSORTED_def)

lemma efold_merged_sorted_tag:
  "\<forall>r \<in> set ms. elevator_private0 nd r = ALGOT_PRI0_SORTED \<Longrightarrow>
     \<exists>nd'. efold (\<lambda>r nd. algot_merged_requests nd rq r) ms nd = Inr nd'
        \<and> wait_queue nd' = filter (\<lambda>r. r \<notin> set ms) (wait_queue nd)
        \<and> sort_queue nd' = filter (\<lambda>r. r \<notin> set ms) (sort_queue nd)"
proof (induction ms arbitrary: nd)
  case Nil
  then show ?case by simp
next
  case (Cons m ms)
  let ?nd1 = "list_del_init m (nd\<lparr>nsorted := nsorted nd - 1\<rparr>)"
  have step: "algot_merged_requests nd rq m = Inr ?nd1"
    using Cons.prems by (simp add: merged_requests_sorted_tag)
  have "\<forall>r \<in> set ms. elevator_private0 ?nd1 r = ALGOT_PRI0_SORTED"
    using Cons.prems by (simp add: list_del_init_def)
  from Cons.IH [OF this] obtain nd' where
    "efold (\<lambda>r nd. algot_merged_requests nd rq r) ms ?nd1 = Inr nd'"
    "wait_queue nd' = filter (\<lambda>r. r \<notin> set ms) (wait_queue ?nd1)"
    "sort_queue nd' = filter (\<lambda>r. r \<notin> set ms) (sort_queue ?nd1)"
    by blast
  with step show ?case
    by (auto simp: list_del_init_def removeAll_filter_not_eq intro!: filter_cong)
qed

lemma full_queue_nsorted:
  "nsorted (foldl algot_add_request fresh_queue (reqs 128)) = 128"
proof -
  have "foldl algot_add_request fresh_queue (reqs 128) = foldl algot_sort_in fresh_queue (reqs 128)"
    by (rule foldl_add_room)
       (simp_all add: fresh_queue_def zeroed_def length_reqs ALGOT_CALC_MAX_def)
  then show ?thesis
    by (simp add: foldl_sort_in_fields length_reqs fresh_queue_def zeroed_def)
qed

lemma list_del_init_absent:
  "rq \<notin> set (sort_queue nd) \<Longrightarrow> rq \<notin> set (wait_queue nd) \<Longrightarrow> list_del_init rq nd = nd"
  by (simp add: list_del_init_def)

subsection \<open>Admission keeps the invariant\<close>

lemma distinct_sort_queue_insert:
  "distinct (sort_queue_insert rq q) \<longleftrightarrow> rq \<notin> set q \<and> distinct q"
  by (induction q) (auto simp: set_sort_queue_insert)

lemma list_del_init_fields [simp]:
  "wait_queue (list_del_init rq nd) = removeAll rq (wait_queue nd)"
  "sort_queue (list_del_init rq nd) = removeAll rq (sort_queue nd)"
  "nsorted (list_del_init rq nd) = nsorted nd"
  "dirty (list_del_init rq nd) = dirty nd"
  "sorted (list_del_init rq nd) = sorted nd"
  "opt_s (list_del_init rq nd) = opt_s nd"
  "opt_e (list_del_init rq nd) = opt_e nd"
  "rw_head (list_del_init rq nd) = rw_head nd"
  "elevator_private0 (list_del_init rq nd) = elevator_private0 nd"
  by (simp_all add: list_del_init_def)

lemma tags_differ: "ALGOT_PRI0_SORTED \<noteq> ALGOT_PRI0_UNSORTED"
  by (simp add: ALGOT_PRI0_SORTED_def ALGOT_PRI0_UNSORTED_def)

text \<open>
  One request moves into the sort queue: the step of the drain loop, and the last
  step of an admission with room.
\<close>

lemma sort_in_queues_ok:
  assumes ok: "queues_ok nd" and new: "rq \<notin> set (sort_queue nd)"
    and room: "unat (nsorted nd) < ALGOT_CALC_MAX"
  shows "queues_ok (algot_sort_in (list_del_init rq nd) rq)"
proof -
  from room have inc: "unat (nsorted nd + 1) = Suc (unat (nsorted nd))"
    by (simp add: ALGOT_CALC_MAX_def unat_inc_small)
  from new have same: "removeAll rq (sort_queue nd) = sort_queue nd"
    by simp
  from ok new show ?thesis
    unfolding queues_ok_def
    using inc room
    by (auto simp: same distinct_sort_queue_insert set_sort_queue_insert
        length_sort_queue_insert sorted_sort_queue_insert distinct_removeAll tags_differ)
qed

lemma sort_in_plan_ok:
  assumes ok: "queues_ok nd" and new: "rq \<notin> set (sort_queue nd)" and plan: "plan_ok nd"
  shows "plan_ok (algot_sort_in (list_del_init rq nd) rq)"
proof -
  from new have same: "removeAll rq (sort_queue nd) = sort_queue nd"
    by simp
  have "slot_planned (algot_sort_in (list_del_init rq nd) rq) i" if "slot_planned nd i" for i
    using that new
    by (auto simp: slot_planned_def same set_sort_queue_insert split: slot.splits)
  with plan show ?thesis
    by (simp add: plan_ok_def)
qed

lemma sort_in_held:
  "set (sort_queue (algot_sort_in (list_del_init rq nd) rq))
     \<union> set (wait_queue (algot_sort_in (list_del_init rq nd) rq))
   = insert rq (set (sort_queue nd) \<union> set (wait_queue nd))"
  by (auto simp: set_sort_queue_insert)

lemma drain_preserves:
  assumes "queues_ok nd"
  shows "queues_ok (drain_wait_queue nd)
    \<and> (plan_ok nd \<longrightarrow> plan_ok (drain_wait_queue nd))
    \<and> set (sort_queue (drain_wait_queue nd)) \<union> set (wait_queue (drain_wait_queue nd))
        = set (sort_queue nd) \<union> set (wait_queue nd)
    \<and> (wait_queue (drain_wait_queue nd) = [] \<or> \<not> unat (nsorted (drain_wait_queue nd)) < ALGOT_CALC_MAX)
    \<and> rw_head (drain_wait_queue nd) = rw_head nd"
  using assms
proof (induction nd rule: drain_wait_queue.induct)
  case (1 nd)
  show ?case
  proof (cases "wait_queue nd \<noteq> [] \<and> unat (nsorted nd) < ALGOT_CALC_MAX")
    case True
    let ?r = "hd (wait_queue nd)"
    let ?nd1 = "algot_sort_in (list_del_init ?r nd) ?r"
    from True have mem: "?r \<in> set (wait_queue nd)"
      by simp
    with "1.prems" have new: "?r \<notin> set (sort_queue nd)"
      by (auto simp: queues_ok_def)
    have ok1: "queues_ok ?nd1"
      using "1.prems" new True by (simp add: sort_in_queues_ok)
    have plan1: "plan_ok nd \<longrightarrow> plan_ok ?nd1"
      using "1.prems" new by (simp add: sort_in_plan_ok)
    have held1: "set (sort_queue ?nd1) \<union> set (wait_queue ?nd1)
        = set (sort_queue nd) \<union> set (wait_queue nd)"
      using mem by (auto simp: set_sort_queue_insert)
    have unf: "drain_wait_queue nd = drain_wait_queue ?nd1"
      using True by (subst drain_wait_queue.simps) simp
    from "1.IH" [OF True ok1] plan1 held1 show ?thesis
      unfolding unf by simp
  next
    case False
    then have "drain_wait_queue nd = nd"
      by (subst drain_wait_queue.simps) auto
    with "1.prems" False show ?thesis
      by auto
  qed
qed

lemma drain_dirty:
  "\<exists>k. dirty (drain_wait_queue nd) = dirty nd + of_nat k
     \<and> unat (nsorted (drain_wait_queue nd)) = unat (nsorted nd) + k"
proof (induction nd rule: drain_wait_queue.induct)
  case (1 nd)
  show ?case
  proof (cases "wait_queue nd \<noteq> [] \<and> unat (nsorted nd) < ALGOT_CALC_MAX")
    case True
    let ?r = "hd (wait_queue nd)"
    let ?nd1 = "algot_sort_in (list_del_init ?r nd) ?r"
    have unf: "drain_wait_queue nd = drain_wait_queue ?nd1"
      using True by (subst drain_wait_queue.simps) simp
    from "1.IH" [OF True] obtain k where
      k: "dirty (drain_wait_queue ?nd1) = dirty ?nd1 + of_nat k"
         "unat (nsorted (drain_wait_queue ?nd1)) = unat (nsorted ?nd1) + k"
      by blast
    have "unat (nsorted ?nd1) = Suc (unat (nsorted nd))"
      using True by (simp add: ALGOT_CALC_MAX_def unat_inc_small)
    with k have "dirty (drain_wait_queue nd) = dirty nd + of_nat (Suc k)
        \<and> unat (nsorted (drain_wait_queue nd)) = unat (nsorted nd) + Suc k"
      unfolding unf by simp
    then show ?thesis
      by blast
  next
    case False
    then have "drain_wait_queue nd = nd"
      by (subst drain_wait_queue.simps) auto
    then have "dirty (drain_wait_queue nd) = dirty nd + of_nat 0
        \<and> unat (nsorted (drain_wait_queue nd)) = unat (nsorted nd) + 0"
      by simp
    then show ?thesis
      by blast
  qed
qed

lemma sint_add_of_nat:
  fixes d :: c_int
  assumes "k \<le> 128" and "sint d + 128 < 2 ^ 31"
  shows "sint (d + of_nat k) = sint d + int k"
proof -
  have "sint (of_nat k :: c_int) = int k"
    using assms(1) by (simp add: signed_of_nat signed_take_bit_int_eq_self)
  then show ?thesis
    using sint_ge [of d] assms by (simp add: sint_word_ariths signed_take_bit_int_eq_self)
qed

lemma dirty_stays_due:
  fixes d :: c_int
  assumes "ALGOT_DIRTY_COUNT \<le>s d" and "k \<le> 128" and "sint d + 128 < 2 ^ 31"
  shows "ALGOT_DIRTY_COUNT \<le>s d + of_nat k"
  using assms by (simp add: word_sle_eq sint_add_of_nat ALGOT_DIRTY_COUNT_def)

lemma add_request_inv:
  assumes inv: "sched_inv nd" and room: "dirty_room nd"
    and new: "rq \<notin> set (sort_queue nd) \<union> set (wait_queue nd)"
  shows "sched_inv (algot_add_request nd rq)"
proof -
  let ?nd1 = "drain_wait_queue nd"
  from inv have ok: "queues_ok nd"
    by (simp add: sched_inv_def)
  note d = drain_preserves [OF ok]
  from room have room': "sint (dirty nd) + 128 < 2 ^ 31"
    by (simp add: dirty_room_def ALGOT_CALC_MAX_def)
  from drain_dirty [of nd] obtain k where
    k: "dirty ?nd1 = dirty nd + of_nat k" "unat (nsorted ?nd1) = unat (nsorted nd) + k"
    by blast
  from d have "unat (nsorted ?nd1) \<le> 128"
    by (simp add: queues_ok_def ALGOT_CALC_MAX_def)
  with k have k128: "k \<le> 128"
    by simp
  have due1: "ALGOT_DIRTY_COUNT \<le>s dirty ?nd1" if "ALGOT_DIRTY_COUNT \<le>s dirty nd"
    unfolding k using that k128 room' by (rule dirty_stays_due)
  from d new have new1: "rq \<notin> set (sort_queue ?nd1)" "rq \<notin> set (wait_queue ?nd1)"
    by auto
  show ?thesis
  proof (cases "wait_queue ?nd1 = [] \<and> unat (nsorted ?nd1) < ALGOT_CALC_MAX")
    case True
    have eq: "algot_add_request nd rq = algot_sort_in (list_del_init rq ?nd1) rq"
      using True new1 by (simp add: algot_add_request_def list_del_init_absent)
    have ok2: "queues_ok (algot_sort_in (list_del_init rq ?nd1) rq)"
      using d new1 True by (simp add: sort_in_queues_ok)
    have "ALGOT_DIRTY_COUNT \<le>s dirty (algot_sort_in (list_del_init rq ?nd1) rq)
        \<or> plan_ok (algot_sort_in (list_del_init rq ?nd1) rq)"
    proof (cases "plan_ok nd")
      case True
      with d new1 show ?thesis
        by (simp add: sort_in_plan_ok)
    next
      case np: False
      show ?thesis
      proof (cases "ALGOT_DIRTY_COUNT \<le>s dirty nd")
        case due: True
        from True k have "Suc k \<le> 128"
          by (simp add: ALGOT_CALC_MAX_def)
        with due room' have "ALGOT_DIRTY_COUNT \<le>s dirty nd + of_nat (Suc k)"
          by (intro dirty_stays_due)
        then show ?thesis
          by (simp add: k ac_simps)
      next
        case False
        with np inv have "sort_queue nd = []" "wait_queue nd = []" "dirty nd = ALGOT_DIRTY_COUNT - 1"
          by (auto simp: sched_inv_def)
        then have "drain_wait_queue nd = nd"
          by (simp add: drain_wait_queue_empty)
        with \<open>dirty nd = ALGOT_DIRTY_COUNT - 1\<close> show ?thesis
          by (simp add: word_sle_eq ALGOT_DIRTY_COUNT_def)
      qed
    qed
    with ok2 show ?thesis
      by (auto simp: sched_inv_def eq)
  next
    case False
    let ?nd2 = "?nd1\<lparr>elevator_private0 := (elevator_private0 ?nd1)(rq := ALGOT_PRI0_UNSORTED),
                 wait_queue := wait_queue ?nd1 @ [rq]\<rparr>"
    have eq: "algot_add_request nd rq = ?nd2"
      using False by (auto simp: algot_add_request_def Let_def)
    have ok2: "queues_ok ?nd2"
      using d new1 by (auto simp: queues_ok_def)
    have plan2: "plan_ok ?nd2" if "plan_ok ?nd1"
    proof -
      have "slot_planned ?nd2 i" if "slot_planned ?nd1 i" for i
        using that new1 by (auto simp: slot_planned_def split: slot.splits)
      with \<open>plan_ok ?nd1\<close> show ?thesis
        by (simp add: plan_ok_def)
    qed
    have "ALGOT_DIRTY_COUNT \<le>s dirty ?nd2 \<or> plan_ok ?nd2"
    proof (cases "plan_ok nd")
      case True
      with d plan2 show ?thesis
        by simp
    next
      case np: False
      show ?thesis
      proof (cases "ALGOT_DIRTY_COUNT \<le>s dirty nd")
        case True
        then show ?thesis
          by (simp add: due1)
      next
        case nd8: False
        with np inv have "sort_queue nd = []" "wait_queue nd = []"
          by (auto simp: sched_inv_def)
        with ok have "drain_wait_queue nd = nd" "unat (nsorted nd) = 0"
          by (simp_all add: drain_wait_queue_empty queues_ok_def)
        with False \<open>wait_queue nd = []\<close> show ?thesis
          by (simp add: ALGOT_CALC_MAX_def)
      qed
    qed
    with ok2 show ?thesis
      by (auto simp: sched_inv_def eq)
  qed
qed

subsection \<open>Merge notification keeps the invariant\<close>

lemma unat_of_nat_small: "i < 128 \<Longrightarrow> unat (of_nat i :: 64 word) = i"
  by (simp add: unat_of_nat take_bit_nat_eq_self)

lemma unat_of_nat_small32: "i \<le> 128 \<Longrightarrow> unat (of_nat i :: 32 word) = i"
  by (simp add: unat_of_nat take_bit_nat_eq_self)

lemma index_not_tag:
  assumes "i < 128"
  shows "(of_nat i :: 64 word) \<noteq> ALGOT_PRI0_SORTED" and "(of_nat i :: 64 word) \<noteq> ALGOT_PRI0_UNSORTED"
proof -
  from assms have u: "unat (of_nat (i + 2) :: 64 word) = i + 2" "unat (of_nat (i + 1) :: 64 word) = i + 1"
    by (subst unat_of_nat, simp)+
  show "(of_nat i :: 64 word) \<noteq> ALGOT_PRI0_SORTED"
  proof
    assume "(of_nat i :: 64 word) = ALGOT_PRI0_SORTED"
    then have "(of_nat (i + 1) :: 64 word) = 0"
      by (simp add: ALGOT_PRI0_SORTED_def)
    with u(2) show False
      by simp
  qed
  show "(of_nat i :: 64 word) \<noteq> ALGOT_PRI0_UNSORTED"
  proof
    assume "(of_nat i :: 64 word) = ALGOT_PRI0_UNSORTED"
    then have "(of_nat (i + 2) :: 64 word) = 0"
      by (simp add: ALGOT_PRI0_UNSORTED_def)
    with u(1) show False
      by simp
  qed
qed

lemma length_removeAll_distinct:
  "distinct xs \<Longrightarrow> x \<in> set xs \<Longrightarrow> length (removeAll x xs) = length xs - 1"
  by (simp add: distinct_remove1_removeAll [symmetric] length_remove1)

lemma sorted_wrt_removeAll: "sorted_wrt P xs \<Longrightarrow> sorted_wrt P (removeAll x xs)"
  by (simp add: removeAll_filter_not_eq sorted_wrt_filter)

lemma unat_dec: "unat (n :: uint) \<noteq> 0 \<Longrightarrow> unat (n - 1) = unat n - 1"
  by (metis unat_minus_one unat_0)

text \<open>A request of the sort queue leaves it and the live count is decremented.\<close>

lemma leave_sort_queue_ok:
  assumes ok: "queues_ok nd" and mem: "rq \<in> set (sort_queue nd)"
  shows "queues_ok (list_del_init rq (nd\<lparr>nsorted := nsorted nd - 1, sorted := sa, rw_head := h\<rparr>))"
proof -
  from ok mem have len: "length (sort_queue nd) = unat (nsorted nd)" "unat (nsorted nd) \<noteq> 0"
    by (auto simp: queues_ok_def)
  then have dec: "unat (nsorted nd - 1) = unat (nsorted nd) - 1"
    by (simp add: unat_dec)
  from ok have dist: "distinct (sort_queue nd)"
    by (simp add: queues_ok_def)
  from ok mem show ?thesis
    unfolding queues_ok_def
    using dec len
    by (auto simp: length_removeAll_distinct [OF dist mem] sorted_wrt_removeAll distinct_removeAll)
qed

lemma merged_requests_inv:
  assumes inv: "sched_inv nd" and held: "next \<in> set (sort_queue nd) \<union> set (wait_queue nd)"
    and res: "algot_merged_requests nd rq next = Inr nd'"
  shows "sched_inv nd'"
proof -
  from inv have ok: "queues_ok nd"
    by (simp add: sched_inv_def)
  from inv held have dp: "ALGOT_DIRTY_COUNT \<le>s dirty nd \<or> plan_ok nd"
    by (auto simp: sched_inv_def)
  let ?ref = "elevator_private0 nd next"
  show ?thesis
  proof (cases "?ref = ALGOT_PRI0_UNSORTED")
    case True
    with res have nd': "nd' = list_del_init next nd"
      by (simp add: algot_merged_requests_def)
    from True ok held have w: "next \<in> set (wait_queue nd)" "next \<notin> set (sort_queue nd)"
      by (auto simp: queues_ok_def)
    then have same: "removeAll next (sort_queue nd) = sort_queue nd"
      by simp
    have ok': "queues_ok nd'"
      using ok w unfolding queues_ok_def nd' by (auto simp: same distinct_removeAll)
    have "slot_planned nd' i" if "slot_planned nd i" for i
      using that by (auto simp: slot_planned_def nd' same split: slot.splits)
    then have "plan_ok nd'" if "plan_ok nd"
      using that by (simp add: plan_ok_def nd')
    with dp ok' show ?thesis
      by (auto simp: sched_inv_def nd')
  next
    case False
    with ok held have s: "next \<in> set (sort_queue nd)"
      by (auto simp: queues_ok_def)
    show ?thesis
    proof (cases "?ref = ALGOT_PRI0_SORTED")
      case True
      with res have nd': "nd' = list_del_init next (nd\<lparr>nsorted := nsorted nd - 1\<rparr>)"
        by (simp add: merged_requests_sorted_tag)
      have ok': "queues_ok nd'"
        using leave_sort_queue_ok [OF ok s, where sa = "sorted nd" and h = "rw_head nd"] by (simp add: nd')
      have "plan_ok nd'" if p: "plan_ok nd"
      proof -
        have "slot_planned nd' i" if "slot_planned nd i" and "i < ALGOT_CALC_MAX" for i
        proof (cases "sorted nd i")
          case (Ref r)
          with that have r: "r \<in> set (sort_queue nd)" "elevator_private0 nd r = of_nat i"
            by (simp_all add: slot_planned_def)
          from that(2) have "(of_nat i :: 64 word) \<noteq> ALGOT_PRI0_SORTED"
            by (simp add: ALGOT_CALC_MAX_def index_not_tag)
          with r True have "r \<noteq> next"
            by auto
          with r Ref show ?thesis
            by (simp add: slot_planned_def nd')
        qed (use that in \<open>simp_all add: slot_planned_def nd'\<close>)
        with p show ?thesis
          by (simp add: plan_ok_def nd')
      qed
      with dp ok' show ?thesis
        by (auto simp: sched_inv_def nd')
    next
      case ns: False
      with False res have bound: "unat ?ref < ALGOT_CALC_MAX"
        by (auto simp: algot_merged_requests_def Let_def split: if_splits)
      with False ns res have nd': "nd' = list_del_init next
          (nd\<lparr>nsorted := nsorted nd - 1, sorted := (sorted nd)(unat ?ref := ALGOT_REF_MERGED)\<rparr>)"
        by (auto simp: algot_merged_requests_def Let_def split: if_splits)
      have ok': "queues_ok nd'"
        using leave_sort_queue_ok [OF ok s,
            where sa = "(sorted nd)(unat ?ref := ALGOT_REF_MERGED)" and h = "rw_head nd"]
        by (simp add: nd')
      have "plan_ok nd'" if p: "plan_ok nd"
      proof -
        have pl: "slot_planned nd' i" if "slot_planned nd i" and "i < ALGOT_CALC_MAX" for i
        proof (cases "i = unat ?ref")
          case True
          then show ?thesis
            by (simp add: slot_planned_def nd')
        next
          case ne: False
          show ?thesis
          proof (cases "sorted nd i")
            case (Ref r)
            with that have r: "r \<in> set (sort_queue nd)" "elevator_private0 nd r = of_nat i"
              by (simp_all add: slot_planned_def)
            from that(2) have "unat (of_nat i :: 64 word) = i"
              by (simp add: ALGOT_CALC_MAX_def unat_of_nat_small)
            with ne have "(of_nat i :: 64 word) \<noteq> ?ref"
              by auto
            with r have "r \<noteq> next"
              by auto
            with r Ref ne show ?thesis
              by (simp add: slot_planned_def nd')
          qed (use that ne in \<open>simp_all add: slot_planned_def nd'\<close>)
        qed
        have dd: "slot_dead (sorted nd' i)" if "slot_dead (sorted nd i)" for i
          using that by (simp add: nd' slot_dead_def)
        from p pl dd show ?thesis
          by (simp add: plan_ok_def nd')
      qed
      with dp ok' show ?thesis
        by (auto simp: sched_inv_def nd')
    qed
  qed
qed

subsection \<open>The planner\<close>

lemma unat_inc_idx: "unat (idx :: uintptr_t) < 128 \<Longrightarrow> unat (idx + 1) = Suc (unat idx)"
  by (simp add: unat_word_ariths)

lemma plan_fill_append: "plan_fill (xs @ ys) st = plan_fill ys (plan_fill xs st)"
  by (induction xs st rule: plan_fill.induct) simp_all

lemma plan_above_fill:
  "unat idx + length (filter (\<lambda>r. h < blk_rq_pos r) q) \<le> ALGOT_CALC_MAX
     \<Longrightarrow> plan_above h q (sa, pv, idx) = Inr (plan_fill (filter (\<lambda>r. h < blk_rq_pos r) q) (sa, pv, idx))"
proof (induction q arbitrary: sa pv idx)
  case Nil
  then show ?case by simp
next
  case (Cons r q)
  show ?case
  proof (cases "h < blk_rq_pos r")
    case True
    with Cons.prems have b: "unat idx < 128"
      by (simp add: ALGOT_CALC_MAX_def)
    with Cons.prems True have "unat (idx + 1) + length (filter (\<lambda>r. h < blk_rq_pos r) q) \<le> ALGOT_CALC_MAX"
      by (simp add: unat_inc_idx)
    note ih = Cons.IH [OF this, of "sa(unat idx := Ref r)" "pv(r := idx)"]
    have "plan_above h (r # q) (sa, pv, idx)
        = plan_above h q (sa(unat idx := Ref r), pv(r := idx), idx + 1)"
      using True b by (simp add: ALGOT_CALC_MAX_def)
    also note ih
    also have "plan_fill (filter (\<lambda>r. h < blk_rq_pos r) q) (sa(unat idx := Ref r), pv(r := idx), idx + 1)
        = plan_fill (filter (\<lambda>r. h < blk_rq_pos r) (r # q)) (sa, pv, idx)"
      using True by simp
    finally show ?thesis .
  next
    case False
    with Cons show ?thesis
      by simp
  qed
qed

lemma plan_below_fill:
  "unat idx + length (takeWhile (\<lambda>r. \<not> h < blk_rq_pos r) q) \<le> ALGOT_CALC_MAX
     \<Longrightarrow> plan_below h q (sa, pv, idx)
           = Inr (plan_fill (takeWhile (\<lambda>r. \<not> h < blk_rq_pos r) q) (sa, pv, idx))"
proof (induction q arbitrary: sa pv idx)
  case Nil
  then show ?case by simp
next
  case (Cons r q)
  show ?case
  proof (cases "h < blk_rq_pos r")
    case True
    then show ?thesis
      by simp
  next
    case False
    with Cons.prems have b: "unat idx < 128"
      by (simp add: ALGOT_CALC_MAX_def)
    with Cons.prems False have "unat (idx + 1) + length (takeWhile (\<lambda>r. \<not> h < blk_rq_pos r) q) \<le> ALGOT_CALC_MAX"
      by (simp add: unat_inc_idx)
    note ih = Cons.IH [OF this, of "sa(unat idx := Ref r)" "pv(r := idx)"]
    have "plan_below h (r # q) (sa, pv, idx)
        = plan_below h q (sa(unat idx := Ref r), pv(r := idx), idx + 1)"
      using False b by (simp add: ALGOT_CALC_MAX_def)
    also note ih
    also have "plan_fill (takeWhile (\<lambda>r. \<not> h < blk_rq_pos r) q)
          (sa(unat idx := Ref r), pv(r := idx), idx + 1)
        = plan_fill (takeWhile (\<lambda>r. \<not> h < blk_rq_pos r) (r # q)) (sa, pv, idx)"
      using False by simp
    finally show ?thesis .
  qed
qed

lemma takeWhile_below_sorted:
  "sorted_wrt precedes q
     \<Longrightarrow> takeWhile (\<lambda>r. \<not> h < blk_rq_pos r) q = filter (\<lambda>r. \<not> h < blk_rq_pos r) q"
proof (induction q)
  case Nil
  then show ?case by simp
next
  case (Cons r q)
  show ?case
  proof (cases "h < blk_rq_pos r")
    case True
    with Cons.prems have "\<forall>x \<in> set q. h < blk_rq_pos x"
      by (auto simp: precedes_def)
    with True show ?thesis
      by (simp add: filter_empty_conv)
  next
    case False
    with Cons show ?thesis
      by simp
  qed
qed

lemma plan_fill_spec:
  assumes "distinct rs" and "unat idx + length rs \<le> 128"
    and "plan_fill rs (sa, pv, idx) = (sa', pv', idx')"
  shows "idx' = idx + of_nat (length rs)
    \<and> (\<forall>j < length rs. sa' (unat idx + j) = Ref (rs ! j) \<and> pv' (rs ! j) = idx + of_nat j)
    \<and> (\<forall>i. \<not> (unat idx \<le> i \<and> i < unat idx + length rs) \<longrightarrow> sa' i = sa i)
    \<and> (\<forall>r. r \<notin> set rs \<longrightarrow> pv' r = pv r)"
  using assms
proof (induction rs arbitrary: sa pv idx)
  case Nil
  then show ?case by simp
next
  case (Cons r rs)
  from Cons.prems have b: "unat idx < 128"
    by simp
  then have inc: "unat (idx + 1) = Suc (unat idx)"
    by (rule unat_inc_idx)
  from Cons.prems have fill: "plan_fill rs (sa(unat idx := Ref r), pv(r := idx), idx + 1) = (sa', pv', idx')"
    by simp
  from Cons.prems inc have "distinct rs" "unat (idx + 1) + length rs \<le> 128"
    by simp_all
  note ih = Cons.IH [OF this fill]
  from Cons.prems have rnew: "r \<notin> set rs"
    by simp
  have "sa' (unat idx + j) = Ref ((r # rs) ! j) \<and> pv' ((r # rs) ! j) = idx + of_nat j"
    if "j < length (r # rs)" for j
  proof (cases j)
    case 0
    with ih rnew inc show ?thesis
      by simp
  next
    case (Suc k)
    with that ih inc show ?thesis
      by (simp add: add.assoc add.commute)
  qed
  moreover have "sa' i = sa i" if "\<not> (unat idx \<le> i \<and> i < unat idx + length (r # rs))" for i
    using that ih inc by auto
  moreover have "pv' x = pv x" if "x \<notin> set (r # rs)" for x
    using that ih by auto
  moreover have "idx' = idx + of_nat (length (r # rs))"
    using ih by (simp add: add.assoc add.commute)
  ultimately show ?case
    by blast
qed

lemma cscan_order_props:
  "set (cscan_order h q) = set q"
  "length (cscan_order h q) = length q"
  "distinct q \<Longrightarrow> distinct (cscan_order h q)"
  by (auto simp: cscan_order_def sum_length_filter_compl)

text \<open>On consistent queues the planner completes: no access leaves the arrays.\<close>

lemma MATRIX_small:
  assumes "unat i < 128" and "unat j < 128" and "unat w \<le> 128"
  shows "MATRIX w i j < ALGOT_CALC_MAX * ALGOT_CALC_MAX"
proof -
  have "unat (i * w + j) \<le> unat (i * w) + unat j"
    by (simp add: unat_word_ariths)
  also have "unat (i * w) \<le> unat i * unat w"
    by (simp add: unat_word_ariths)
  also have "unat i * unat w \<le> 127 * 128"
    using assms by (intro mult_le_mono) simp_all
  finally show ?thesis
    using assms(2) by (simp add: MATRIX_def ALGOT_CALC_MAX_def)
qed

lemma mx_rd_ok:
  "unat i < 128 \<Longrightarrow> unat j < 128 \<Longrightarrow> unat w \<le> 128
     \<Longrightarrow> mx_rd mx w i j = Inr (mx (MATRIX w i j))"
  by (simp add: mx_rd_def MATRIX_small)

lemma mx_wr_ok:
  "unat i < 128 \<Longrightarrow> unat j < 128 \<Longrightarrow> unat w \<le> 128
     \<Longrightarrow> mx_wr mx w i j v = Inr (mx(MATRIX w i j := v))"
  by (simp add: mx_wr_def MATRIX_small)

lemma sect_dist_ok:
  assumes "\<forall>x < n. \<exists>r. sa x = Ref r" and "n \<le> 128" and "unat i < n" and "unat j < n"
  shows "\<exists>d. sect_dist sa i j = Inr d"
proof -
  from assms obtain a b where "sa (unat i) = Ref a" "sa (unat j) = Ref b"
    by blast
  with assms show ?thesis
    by (simp add: sect_dist_def sorted_rd_def slot_pos_def ebind_Inr ALGOT_CALC_MAX_def)
qed

lemma efold_ok:
  assumes "\<And>x st. x \<in> set xs \<Longrightarrow> \<exists>st'. f x st = Inr st'"
  shows "\<exists>st'. efold f xs st = Inr st'"
  using assms
proof (induction xs arbitrary: st)
  case Nil
  then show ?case by simp
next
  case (Cons x xs)
  from Cons.prems [of x st] obtain st1 where "f x st = Inr st1"
    by auto
  moreover from Cons.IH [of st1] Cons.prems obtain st2 where "efold f xs st1 = Inr st2"
    by auto
  ultimately show ?case
    by simp
qed

lemma dp_cell_ok:
  assumes refs: "\<forall>x < unat ns. \<exists>r. sa x = Ref r" and ns: "unat ns \<le> 128"
    and k: "1 \<le> k" and ki: "k + i < unat ns"
  shows "\<exists>mx'. dp_cell sa ns (of_nat k) (of_nat i) mx = Inr mx'"
proof -
  let ?i = "of_nat i :: uint" and ?j = "of_nat k + of_nat i :: uint"
  from ki ns have ui: "unat ?i = i"
    by (simp add: unat_of_nat_small32)
  have e1: "(of_nat (k + i) :: uint) = ?j" and e2: "(of_nat (i + 1) :: uint) = ?i + 1"
    by simp_all
  from k have e3: "(of_nat (k + i - 1) :: uint) = ?j - 1"
    by (simp add: of_nat_diff)
  from ki ns have "unat (of_nat (k + i) :: uint) = k + i"
    by (intro unat_of_nat_small32) simp
  then have uj: "unat ?j = k + i"
    unfolding e1 .
  from ki ns have "unat (of_nat (i + 1) :: uint) = i + 1"
    by (intro unat_of_nat_small32) simp
  then have ui1: "unat (?i + 1) = i + 1"
    unfolding e2 .
  from k ki ns have "unat (of_nat (k + i - 1) :: uint) = k + i - 1"
    by (intro unat_of_nat_small32) simp
  then have uj1: "unat (?j - 1) = k + i - 1"
    unfolding e3 .
  note u = ui uj ui1 uj1
  from k ki have lt: "unat ?i < unat ns" "unat ?j < unat ns" "unat (?i + 1) < unat ns"
      "unat (?j - 1) < unat ns"
    by (simp_all add: u)
  from sect_dist_ok [OF refs ns lt(1) lt(3)] obtain d1
    where d1: "sect_dist sa ?i (?i + 1) = Inr d1"
    by blast
  from sect_dist_ok [OF refs ns lt(1) lt(2)] obtain d2
    where d2: "sect_dist sa ?i ?j = Inr d2"
    by blast
  from sect_dist_ok [OF refs ns lt(2) lt(4)] obtain d3
    where d3: "sect_dist sa ?j (?j - 1) = Inr d3"
    by blast
  have b: "unat ?i < 128" "unat ?j < 128" "unat (?i + 1) < 128" "unat (?j - 1) < 128"
    using lt ns by linarith+
  show ?thesis
    unfolding dp_cell_def Let_def
    by (simp add: d1 d2 d3 ebind_Inr mx_rd_ok mx_wr_ok b ns)
qed

lemma program_unfold:
  assumes ok: "queues_ok nd"
  shows "algot_program nd =
    (case plan_fill (cscan_order (rw_head nd) (sort_queue (drain_wait_queue nd)))
            (sorted (drain_wait_queue nd), elevator_private0 (drain_wait_queue nd), 0) of
       (sa, pv, idx) \<Rightarrow>
         ebind (efold (\<lambda>i mx. mx_wr mx (nsorted (drain_wait_queue nd)) (of_nat i) (of_nat i) 0)
                  [0..<unat (nsorted (drain_wait_queue nd))] (cost_matrix (drain_wait_queue nd)))
           (\<lambda>mx0.
         ebind (efold (\<lambda>k. efold (\<lambda>i. dp_cell sa (nsorted (drain_wait_queue nd)) (of_nat k) (of_nat i))
                               [0..<unat (nsorted (drain_wait_queue nd)) - k])
                  [1..<Suc (unat (nsorted (drain_wait_queue nd)))] mx0)
           (\<lambda>mx.
         Inr ((drain_wait_queue nd)\<lparr>opt_ns := nsorted (drain_wait_queue nd), sorted := sa,
                elevator_private0 := pv, cost_matrix := mx, opt_s := 0,
                opt_e := nsorted (drain_wait_queue nd) - 1, dirty := 0\<rparr>))))"
proof -
  define nd1 where "nd1 = drain_wait_queue nd"
  define h where "h = rw_head nd"
  define A where "A = filter (\<lambda>r. h < blk_rq_pos r) (sort_queue nd1)"
  define B where "B = filter (\<lambda>r. \<not> h < blk_rq_pos r) (sort_queue nd1)"
  define st0 where "st0 = (sorted nd1, elevator_private0 nd1, 0 :: uintptr_t)"
  from drain_preserves [OF ok] have ok1: "queues_ok nd1"
    by (simp add: nd1_def)
  then have len: "length (sort_queue nd1) \<le> 128" and dist: "distinct (sort_queue nd1)"
    and srt: "sorted_wrt precedes (sort_queue nd1)"
    by (auto simp: queues_ok_def ALGOT_CALC_MAX_def)
  have lenAB: "length A + length B = length (sort_queue nd1)"
    unfolding A_def B_def by (rule sum_length_filter_compl)
  have tw: "takeWhile (\<lambda>r. \<not> h < blk_rq_pos r) (sort_queue nd1) = B"
    unfolding B_def by (rule takeWhile_below_sorted [OF srt])
  obtain sa1 pv1 idx1 where f1: "plan_fill A st0 = (sa1, pv1, idx1)"
    by (cases "plan_fill A st0") auto
  have "distinct A" "unat (0 :: uintptr_t) + length A \<le> 128"
    using dist len lenAB by (simp_all add: A_def)
  from plan_fill_spec [OF this f1 [unfolded st0_def]] have idx1: "idx1 = of_nat (length A)"
    by simp
  have "length A < 128 \<or> length A = 128"
    using len lenAB by linarith
  then have u1: "unat idx1 = length A"
    unfolding idx1 by (auto simp: unat_of_nat_small)
  have above: "plan_above h (sort_queue nd1) st0 = Inr (sa1, pv1, idx1)"
    unfolding st0_def using len lenAB f1
    by (subst plan_above_fill) (simp_all add: A_def [symmetric] ALGOT_CALC_MAX_def st0_def)
  have below: "plan_below h (sort_queue nd1) (sa1, pv1, idx1) = Inr (plan_fill B (sa1, pv1, idx1))"
    using len lenAB u1
    by (subst plan_below_fill) (simp_all add: tw ALGOT_CALC_MAX_def)
  have fill: "plan_fill (cscan_order h (sort_queue nd1)) st0 = plan_fill B (sa1, pv1, idx1)"
    by (simp add: cscan_order_def A_def [symmetric] B_def [symmetric] plan_fill_append f1)
  show ?thesis
    unfolding algot_program_def Let_def nd1_def [symmetric] h_def [symmetric] st0_def [symmetric]
    by (simp add: above below fill ebind_Inr)
qed

lemma program_completes:
  assumes ok: "queues_ok nd"
  shows "\<exists>nd'. algot_program nd = Inr nd'"
proof -
  define nd1 where "nd1 = drain_wait_queue nd"
  define L where "L = cscan_order (rw_head nd) (sort_queue nd1)"
  define ns where "ns = nsorted nd1"
  from drain_preserves [OF ok] have ok1: "queues_ok nd1"
    by (simp add: nd1_def)
  then have ns: "unat ns \<le> 128" and len: "length L = unat ns" and dist: "distinct L"
    by (simp_all add: queues_ok_def ALGOT_CALC_MAX_def L_def cscan_order_props ns_def)
  obtain sa pv idx where fill: "plan_fill L (sorted nd1, elevator_private0 nd1, 0) = (sa, pv, idx)"
    by (cases "plan_fill L (sorted nd1, elevator_private0 nd1, 0)") auto
  have "unat (0 :: uintptr_t) + length L \<le> 128"
    using ns len by simp
  from plan_fill_spec [OF dist this fill] len have refs: "\<forall>x < unat ns. \<exists>r. sa x = Ref r"
    by simp
  have "\<exists>mx'. mx_wr mx ns (of_nat i) (of_nat i) 0 = Inr mx'" if "i \<in> set [0..<unat ns]" for i mx
  proof -
    from that ns have "unat (of_nat i :: uint) < 128"
      by (simp add: unat_of_nat_small32)
    with ns show ?thesis
      by (simp add: mx_wr_ok)
  qed
  from efold_ok [of "[0..<unat ns]" "\<lambda>i mx. mx_wr mx ns (of_nat i) (of_nat i) 0", OF this]
  obtain mx0 where diag: "efold (\<lambda>i mx. mx_wr mx ns (of_nat i) (of_nat i) 0) [0..<unat ns]
      (cost_matrix nd1) = Inr mx0"
    by blast
  have "\<exists>mx'. efold (\<lambda>i. dp_cell sa ns (of_nat k) (of_nat i)) [0..<unat ns - k] mx = Inr mx'"
    if "k \<in> set [1..<Suc (unat ns)]" for k mx
  proof (rule efold_ok)
    fix i st
    assume "i \<in> set [0..<unat ns - k]"
    with that have "1 \<le> k" "k + i < unat ns"
      by auto
    from dp_cell_ok [OF refs ns this] show "\<exists>st'. dp_cell sa ns (of_nat k) (of_nat i) st = Inr st'" .
  qed
  from efold_ok [of "[1..<Suc (unat ns)]"
      "\<lambda>k. efold (\<lambda>i. dp_cell sa ns (of_nat k) (of_nat i)) [0..<unat ns - k]", OF this]
  obtain mx where dp: "efold (\<lambda>k. efold (\<lambda>i. dp_cell sa ns (of_nat k) (of_nat i)) [0..<unat ns - k])
      [1..<Suc (unat ns)] mx0 = Inr mx"
    by blast
  show ?thesis
    unfolding program_unfold [OF ok] nd1_def [symmetric] L_def [symmetric] ns_def [symmetric]
    by (simp only: fill prod.case diag dp ebind_Inr) simp
qed

lemma program_result:
  assumes ok: "queues_ok nd" and res: "algot_program nd = Inr nd'"
  shows "\<exists>sa pv idx mx.
      plan_fill (cscan_order (rw_head nd) (sort_queue (drain_wait_queue nd)))
        (sorted (drain_wait_queue nd), elevator_private0 (drain_wait_queue nd), 0) = (sa, pv, idx)
      \<and> nd' = (drain_wait_queue nd)\<lparr>opt_ns := nsorted (drain_wait_queue nd), sorted := sa,
            elevator_private0 := pv, cost_matrix := mx, opt_s := 0,
            opt_e := nsorted (drain_wait_queue nd) - 1, dirty := 0\<rparr>"
proof -
  obtain sa pv idx where f: "plan_fill (cscan_order (rw_head nd) (sort_queue (drain_wait_queue nd)))
      (sorted (drain_wait_queue nd), elevator_private0 (drain_wait_queue nd), 0) = (sa, pv, idx)"
    using prod_cases3 by blast
  from res obtain mx where "nd' = (drain_wait_queue nd)\<lparr>opt_ns := nsorted (drain_wait_queue nd),
      sorted := sa, elevator_private0 := pv, cost_matrix := mx, opt_s := 0,
      opt_e := nsorted (drain_wait_queue nd) - 1, dirty := 0\<rparr>"
    unfolding program_unfold [OF ok] by (auto simp: f ebind_def split: sum.splits)
  with f show ?thesis
    by blast
qed

lemma program_plan:
  assumes ok: "queues_ok nd" and res: "algot_program nd = Inr nd'"
  shows "sort_queue nd' = sort_queue (drain_wait_queue nd)"
    and "wait_queue nd' = wait_queue (drain_wait_queue nd)"
    and "nsorted nd' = nsorted (drain_wait_queue nd)"
    and "rw_head nd' = rw_head nd"
    and "dirty nd' = 0" and "opt_s nd' = 0" and "opt_e nd' = nsorted nd' - 1"
    and "opt_ns nd' = nsorted nd'"
    and "length (sort_queue nd') = unat (nsorted nd')"
    and "\<forall>j < length (sort_queue nd').
           sorted nd' j = Ref (cscan_order (rw_head nd) (sort_queue nd') ! j)
           \<and> elevator_private0 nd' (cscan_order (rw_head nd) (sort_queue nd') ! j) = of_nat j"
    and "\<forall>r. r \<notin> set (sort_queue nd')
           \<longrightarrow> elevator_private0 nd' r = elevator_private0 (drain_wait_queue nd) r"
    and "\<forall>i. length (sort_queue nd') \<le> i \<longrightarrow> sorted nd' i = sorted (drain_wait_queue nd) i"
proof -
  define nd1 where "nd1 = drain_wait_queue nd"
  define L where "L = cscan_order (rw_head nd) (sort_queue nd1)"
  from drain_preserves [OF ok] have ok1: "queues_ok nd1" and h1: "rw_head nd1 = rw_head nd"
    by (simp_all add: nd1_def)
  from program_result [OF ok res] obtain sa pv idx mx where
    fill: "plan_fill L (sorted nd1, elevator_private0 nd1, 0) = (sa, pv, idx)"
    and nd': "nd' = nd1\<lparr>opt_ns := nsorted nd1, sorted := sa, elevator_private0 := pv,
        cost_matrix := mx, opt_s := 0, opt_e := nsorted nd1 - 1, dirty := 0\<rparr>"
    unfolding nd1_def L_def by blast
  from ok1 have "distinct L" "unat (0 :: uintptr_t) + length L \<le> 128"
    by (simp_all add: L_def cscan_order_props queues_ok_def ALGOT_CALC_MAX_def)
  note spec = plan_fill_spec [OF this fill]
  show "sort_queue nd' = sort_queue (drain_wait_queue nd)"
    and "wait_queue nd' = wait_queue (drain_wait_queue nd)"
    and "nsorted nd' = nsorted (drain_wait_queue nd)"
    and "dirty nd' = 0" and "opt_s nd' = 0" and "opt_e nd' = nsorted nd' - 1"
    and "opt_ns nd' = nsorted nd'"
    by (simp_all add: nd' nd1_def)
  show "rw_head nd' = rw_head nd"
    by (simp add: nd' h1)
  show "length (sort_queue nd') = unat (nsorted nd')"
    using ok1 by (simp add: nd' queues_ok_def)
  show "\<forall>j < length (sort_queue nd').
           sorted nd' j = Ref (cscan_order (rw_head nd) (sort_queue nd') ! j)
           \<and> elevator_private0 nd' (cscan_order (rw_head nd) (sort_queue nd') ! j) = of_nat j"
    using spec by (simp add: nd' L_def cscan_order_props)
  show "\<forall>r. r \<notin> set (sort_queue nd')
           \<longrightarrow> elevator_private0 nd' r = elevator_private0 (drain_wait_queue nd) r"
    using spec by (simp add: nd' L_def cscan_order_props nd1_def)
  show "\<forall>i. length (sort_queue nd') \<le> i \<longrightarrow> sorted nd' i = sorted (drain_wait_queue nd) i"
    using spec by (simp add: nd' L_def cscan_order_props nd1_def)
qed

lemma program_queues_ok:
  assumes ok: "queues_ok nd" and res: "algot_program nd = Inr nd'"
  shows "queues_ok nd'"
proof -
  note p = program_plan [OF ok res]
  from drain_preserves [OF ok] have ok1: "queues_ok (drain_wait_queue nd)"
    by simp
  have tag: "elevator_private0 nd' r \<noteq> ALGOT_PRI0_UNSORTED" if "r \<in> set (sort_queue nd')" for r
  proof -
    from that have "r \<in> set (cscan_order (rw_head nd) (sort_queue nd'))"
      by (simp add: cscan_order_props)
    then obtain j where "j < length (cscan_order (rw_head nd) (sort_queue nd'))"
      "cscan_order (rw_head nd) (sort_queue nd') ! j = r"
      unfolding in_set_conv_nth by blast
    then have j: "j < length (sort_queue nd')"
      "cscan_order (rw_head nd) (sort_queue nd') ! j = r"
      by (simp_all add: cscan_order_props)
    with p(10) have "elevator_private0 nd' r = of_nat j"
      by auto
    moreover from j(1) ok1 p(1) have "j < 128"
      by (simp add: queues_ok_def ALGOT_CALC_MAX_def)
    ultimately show ?thesis
      by (simp add: index_not_tag)
  qed
  have "elevator_private0 nd' r = ALGOT_PRI0_UNSORTED" if "r \<in> set (wait_queue nd')" for r
  proof -
    from that ok1 p(1,2) have "r \<notin> set (sort_queue nd')"
      by (auto simp: queues_ok_def)
    with p(11) that ok1 p(2) show ?thesis
      by (simp add: queues_ok_def)
  qed
  with tag ok1 show ?thesis
    unfolding queues_ok_def by (simp add: p(1,2,3))
qed

lemma program_plan_ok:
  assumes ok: "queues_ok nd" and work: "sort_queue nd \<noteq> [] \<or> wait_queue nd \<noteq> []"
    and res: "algot_program nd = Inr nd'"
  shows "plan_ok nd'"
proof -
  note p = program_plan [OF ok res]
  note d = drain_preserves [OF ok]
  have ne: "sort_queue nd' \<noteq> []"
  proof
    assume e: "sort_queue nd' = []"
    with p(1) d have "unat (nsorted (drain_wait_queue nd)) = 0"
      by (simp add: queues_ok_def)
    with d have "wait_queue (drain_wait_queue nd) = []"
      by (auto simp: ALGOT_CALC_MAX_def)
    with e p(1) d work show False
      by auto
  qed
  with p(9) have n0: "unat (nsorted nd') \<noteq> 0"
    by (metis length_0_conv)
  then have e: "unat (opt_e nd') = length (sort_queue nd') - 1"
    by (simp add: p(7) p(9) unat_dec)
  from program_queues_ok [OF ok res] have le: "length (sort_queue nd') \<le> 128"
    by (simp add: queues_ok_def ALGOT_CALC_MAX_def)
  have "slot_planned nd' i" if "i \<le> unat (opt_e nd')" for i
  proof -
    from that e ne have i: "i < length (sort_queue nd')"
      by (cases "sort_queue nd'") auto
    with p(10) have "sorted nd' i = Ref (cscan_order (rw_head nd) (sort_queue nd') ! i)"
      "elevator_private0 nd' (cscan_order (rw_head nd) (sort_queue nd') ! i) = of_nat i"
      by auto
    moreover from i have "cscan_order (rw_head nd) (sort_queue nd') ! i
        \<in> set (cscan_order (rw_head nd) (sort_queue nd'))"
      by (intro nth_mem) (simp add: cscan_order_props)
    ultimately show ?thesis
      by (simp add: slot_planned_def cscan_order_props)
  qed
  with e ne le show ?thesis
    by (cases "sort_queue nd'") (auto simp: plan_ok_def p(6) ALGOT_CALC_MAX_def)
qed

subsection \<open>The dispatcher\<close>

lemma skip_merged_up_spec:
  "skip_merged_up sa s = Inr r \<Longrightarrow>
     unat s \<le> unat r \<and> unat r < 128 \<and> sa (unat r) \<noteq> ALGOT_REF_MERGED
     \<and> (\<forall>i. unat s \<le> i \<and> i < unat r \<longrightarrow> sa i = ALGOT_REF_MERGED)"
proof (induction sa s rule: skip_merged_up.induct)
  case (1 sa s)
  from "1.prems" have b: "unat s < 128"
    by (subst (asm) skip_merged_up.simps) (auto simp: ALGOT_CALC_MAX_def split: if_splits)
  show ?case
  proof (cases "sa (unat s) = ALGOT_REF_MERGED")
    case True
    with "1.prems" b have "skip_merged_up sa (s + 1) = Inr r"
      by (subst (asm) skip_merged_up.simps) (simp add: ALGOT_CALC_MAX_def)
    with "1.IH" True b have ih: "unat (s + 1) \<le> unat r \<and> unat r < 128
        \<and> sa (unat r) \<noteq> ALGOT_REF_MERGED
        \<and> (\<forall>i. unat (s + 1) \<le> i \<and> i < unat r \<longrightarrow> sa i = ALGOT_REF_MERGED)"
      by (simp add: ALGOT_CALC_MAX_def)
    have "sa i = ALGOT_REF_MERGED" if "unat s \<le> i \<and> i < unat r" for i
      using that ih True b by (cases "i = unat s") (auto simp: unat_inc_small)
    with ih b show ?thesis
      by (auto simp: unat_inc_small)
  next
    case False
    with "1.prems" b have "r = s"
      by (subst (asm) skip_merged_up.simps) (simp add: ALGOT_CALC_MAX_def)
    with False b show ?thesis
      by auto
  qed
qed

lemma skip_merged_down_spec:
  "skip_merged_down sa e = Inr r \<Longrightarrow>
     unat r \<le> unat e \<and> unat e < 128 \<and> sa (unat r) \<noteq> ALGOT_REF_MERGED
     \<and> (\<forall>i. unat r < i \<and> i \<le> unat e \<longrightarrow> sa i = ALGOT_REF_MERGED)"
proof (induction sa e rule: skip_merged_down.induct)
  case (1 sa e)
  from "1.prems" have b: "unat e < 128"
    by (subst (asm) skip_merged_down.simps) (auto simp: ALGOT_CALC_MAX_def split: if_splits)
  show ?case
  proof (cases "sa (unat e) = ALGOT_REF_MERGED")
    case True
    with "1.prems" b have rec: "skip_merged_down sa (e - 1) = Inr r"
      by (subst (asm) skip_merged_down.simps) (simp add: ALGOT_CALC_MAX_def)
    have nz: "unat e \<noteq> 0"
    proof
      assume "unat e = 0"
      then have "e = 0"
        by (simp add: unat_eq_0)
      with rec show False
        by (subst (asm) skip_merged_down.simps)
           (simp add: ALGOT_CALC_MAX_def unsigned_minus_1_eq_mask mask_eq_exp_minus_1)
    qed
    then have dec: "unat (e - 1) = unat e - 1"
      by (rule unat_dec)
    from "1.IH" True b rec have ih: "unat r \<le> unat (e - 1) \<and> unat (e - 1) < 128
        \<and> sa (unat r) \<noteq> ALGOT_REF_MERGED
        \<and> (\<forall>i. unat r < i \<and> i \<le> unat (e - 1) \<longrightarrow> sa i = ALGOT_REF_MERGED)"
      by (simp add: ALGOT_CALC_MAX_def)
    have "sa i = ALGOT_REF_MERGED" if "unat r < i \<and> i \<le> unat e" for i
      using that ih True dec by (cases "i = unat e") auto
    with ih b dec show ?thesis
      by auto
  next
    case False
    with "1.prems" b have "r = e"
      by (subst (asm) skip_merged_down.simps) (simp add: ALGOT_CALC_MAX_def)
    with False b show ?thesis
      by auto
  qed
qed

lemma skip_merged_up_Inl: "skip_merged_up sa s = Inl err \<Longrightarrow> err = Fault"
proof (induction sa s rule: skip_merged_up.induct)
  case (1 sa s)
  then show ?case
    by (subst (asm) (2) skip_merged_up.simps) (auto split: if_splits)
qed

lemma skip_merged_down_Inl: "skip_merged_down sa e = Inl err \<Longrightarrow> err = Fault"
proof (induction sa e rule: skip_merged_down.induct)
  case (1 sa e)
  then show ?case
    by (subst (asm) (2) skip_merged_down.simps) (auto split: if_splits)
qed

lemma pick_slot_Inl: "pick_slot nd = Inl err \<Longrightarrow> err = Fault"
  by (auto simp: pick_slot_def ebind_def Let_def slot_pos_def mx_rd_def
      dest: skip_merged_up_Inl skip_merged_down_Inl split: sum.splits if_splits slot.splits)

lemma pick_slot_cases:
  assumes "pick_slot nd = Inr (i, nd1)"
  obtains (last) s where "skip_merged_up (sorted nd) (opt_s nd) = Inr s"
      "skip_merged_down (sorted nd) (opt_e nd) = Inr s" "i = s"
      "nd1 = nd\<lparr>dirty := ALGOT_DIRTY_COUNT\<rparr>"
  | (left) s e ra rb where "skip_merged_up (sorted nd) (opt_s nd) = Inr s"
      "skip_merged_down (sorted nd) (opt_e nd) = Inr e" "s \<noteq> e"
      "sorted nd (unat s) = Ref ra" "sorted nd (unat e) = Ref rb"
      "i = s" "nd1 = nd\<lparr>opt_s := s + 1\<rparr>"
  | (right) s e ra rb where "skip_merged_up (sorted nd) (opt_s nd) = Inr s"
      "skip_merged_down (sorted nd) (opt_e nd) = Inr e" "s \<noteq> e"
      "sorted nd (unat s) = Ref ra" "sorted nd (unat e) = Ref rb"
      "i = e" "nd1 = nd\<lparr>opt_e := e - 1\<rparr>"
  using assms
  by (auto simp: pick_slot_def ebind_def Let_def slot_pos_def
      split: sum.splits if_splits slot.splits)

lemma leave_sort_queue_fields:
  assumes ok: "queues_ok nd" and mem: "rq \<in> set (sort_queue nd)"
    and "sort_queue nd' = removeAll rq (sort_queue nd)"
    and "wait_queue nd' = removeAll rq (wait_queue nd)"
    and "nsorted nd' = nsorted nd - 1"
    and "elevator_private0 nd' = elevator_private0 nd"
  shows "queues_ok nd'"
proof -
  from ok mem have len: "length (sort_queue nd) = unat (nsorted nd)" "unat (nsorted nd) \<noteq> 0"
    by (auto simp: queues_ok_def)
  then have dec: "unat (nsorted nd - 1) = unat (nsorted nd) - 1"
    by (simp add: unat_dec)
  from ok have dist: "distinct (sort_queue nd)"
    by (simp add: queues_ok_def)
  from ok mem show ?thesis
    unfolding queues_ok_def
    using dec len assms(3-6)
    by (auto simp: length_removeAll_distinct [OF dist mem] sorted_wrt_removeAll distinct_removeAll)
qed

lemma slot_planned_after_pick:
  assumes "slot_planned nd i" and "i < 128" and "k < 128" and "i \<noteq> k"
    and "sorted nd k = Ref rq" and "elevator_private0 nd rq = of_nat k"
    and "sorted nd' = (sorted nd)(k := ALGOT_REF_DISPATCHED)"
    and "sort_queue nd' = removeAll rq (sort_queue nd)"
    and "elevator_private0 nd' = elevator_private0 nd"
  shows "slot_planned nd' i"
proof (cases "sorted nd i")
  case (Ref r)
  with assms(1) have r: "r \<in> set (sort_queue nd)" "elevator_private0 nd r = of_nat i"
    by (simp_all add: slot_planned_def)
  from assms(2-4) have "(of_nat i :: 64 word) \<noteq> of_nat k"
    by (metis unat_of_nat_small)
  with r assms(6) have "r \<noteq> rq"
    by auto
  with r Ref assms show ?thesis
    by (simp add: slot_planned_def)
qed (use assms in \<open>simp_all add: slot_planned_def\<close>)

lemma pick_opt_inv:
  assumes ok: "queues_ok nd" and plan: "plan_ok nd"
  shows "pick_opt nd \<noteq> Inl BUG_dispatched"
    and "pick_opt nd = Inr (rq, nd') \<Longrightarrow>
           queues_ok nd' \<and> (ALGOT_DIRTY_COUNT \<le>s dirty nd' \<or> plan_ok nd')"
proof -
  let ?S = "unat (opt_s nd)" and ?E = "unat (opt_e nd)"
  from plan have SE: "?S \<le> ?E" "?E < 128"
    and dead: "\<And>i. i < ?S \<Longrightarrow> slot_dead (sorted nd i)"
    and live: "\<And>i. ?S \<le> i \<Longrightarrow> i \<le> ?E \<Longrightarrow> slot_planned nd i"
    by (auto simp: plan_ok_def ALGOT_CALC_MAX_def)
  have main: "pick_opt nd \<noteq> Inl BUG_dispatched
      \<and> (pick_opt nd = Inr (rq, nd') \<longrightarrow>
           queues_ok nd' \<and> (ALGOT_DIRTY_COUNT \<le>s dirty nd' \<or> plan_ok nd'))"
  proof (cases "pick_slot nd")
    case (Inl err)
    then have "pick_opt nd = Inl Fault"
      using pick_slot_Inl [OF Inl] by (simp add: pick_opt_unfold ebind_Inl)
    then show ?thesis
      by simp
  next
    case (Inr res)
    obtain i nd1 where res: "res = (i, nd1)"
      by (cases res)
    with Inr have sel: "pick_slot nd = Inr (i, nd1)"
      by simp
    from sel show ?thesis
    proof (cases rule: pick_slot_cases)
      case (last s)
      note up = skip_merged_up_spec [OF last(1)] and down = skip_merged_down_spec [OF last(2)]
      from up down have win: "?S \<le> unat s" "unat s \<le> ?E" and nm: "sorted nd (unat s) \<noteq> ALGOT_REF_MERGED"
        by auto
      from live [OF win] nm obtain r where r: "sorted nd (unat s) = Ref r"
        "r \<in> set (sort_queue nd)"
        by (cases "sorted nd (unat s)") (auto simp: slot_planned_def)
      let ?nd2 = "(list_del_init r
          (nd1\<lparr>sorted := (sorted nd1)(unat i := ALGOT_REF_DISPATCHED), rw_head := blk_rq_pos r\<rparr>))
          \<lparr>nsorted := nsorted nd1 - 1\<rparr>"
      have po: "pick_opt nd = Inr (r, ?nd2)"
        using sel r last by (simp add: pick_opt_unfold ebind_Inr)
      have "queues_ok ?nd2"
        by (rule leave_sort_queue_fields [OF ok r(2)]) (simp_all add: last)
      moreover have "ALGOT_DIRTY_COUNT \<le>s dirty ?nd2"
        by (simp add: last word_sle_eq)
      ultimately show ?thesis
        using po by auto
    next
      case (left s e ra rb)
      note up = skip_merged_up_spec [OF left(1)] and down = skip_merged_down_spec [OF left(2)]
      have eS: "?S \<le> unat e"
      proof (rule ccontr)
        assume "\<not> ?S \<le> unat e"
        then have "slot_dead (sorted nd (unat e))"
          by (intro dead) simp
        with left(5) show False
          by (simp add: slot_dead_def)
      qed
      have "unat s \<le> unat e"
      proof (rule ccontr)
        assume "\<not> unat s \<le> unat e"
        with eS up have "sorted nd (unat e) = ALGOT_REF_MERGED"
          by auto
        with left(5) show False
          by simp
      qed
      moreover from left(3) have "unat s \<noteq> unat e"
        by (simp add: word_unat_eq_iff)
      ultimately have lt: "unat s < unat e"
        by simp
      from up down lt have win: "?S \<le> unat s" "unat s \<le> ?E" "unat s < 128" "unat e \<le> ?E"
        by auto
      from live [OF win(1,2)] left(4) have ra: "ra \<in> set (sort_queue nd)"
        "elevator_private0 nd ra = of_nat (unat s)"
        by (simp_all add: slot_planned_def)
      let ?nd2 = "(list_del_init ra
          (nd1\<lparr>sorted := (sorted nd1)(unat i := ALGOT_REF_DISPATCHED), rw_head := blk_rq_pos ra\<rparr>))
          \<lparr>nsorted := nsorted nd1 - 1\<rparr>"
      have po: "pick_opt nd = Inr (ra, ?nd2)"
        using sel left by (simp add: pick_opt_unfold ebind_Inr)
      have ok2: "queues_ok ?nd2"
        by (rule leave_sort_queue_fields [OF ok ra(1)]) (simp_all add: left)
      have inc: "unat (s + 1) = Suc (unat s)"
        using win(3) by (rule unat_inc_small)
      have "slot_dead (sorted ?nd2 k)" if "k < Suc (unat s)" for k
      proof (cases "k = unat s")
        case True
        then show ?thesis
          by (simp add: left slot_dead_def)
      next
        case False
        show ?thesis
        proof (cases "k < ?S")
          case True
          with dead [OF True] False show ?thesis
            by (simp add: left)
        next
          case nS: False
          with that False up have "sorted nd k = ALGOT_REF_MERGED"
            by auto
          with False show ?thesis
            by (simp add: left slot_dead_def)
        qed
      qed
      moreover have "slot_planned ?nd2 k" if "Suc (unat s) \<le> k" "k \<le> ?E" for k
      proof (rule slot_planned_after_pick [where nd = nd and k = "unat s" and rq = ra])
        show "slot_planned nd k"
          using that win by (intro live) auto
        show "k < 128" "unat s < 128" "k \<noteq> unat s"
          using that SE win by auto
      qed (simp_all add: left ra)
      ultimately have "plan_ok ?nd2"
        using lt win SE by (simp add: plan_ok_def left inc ALGOT_CALC_MAX_def)
      with ok2 po show ?thesis
        by auto
    next
      case (right s e ra rb)
      note up = skip_merged_up_spec [OF right(1)] and down = skip_merged_down_spec [OF right(2)]
      have eS: "?S \<le> unat e"
      proof (rule ccontr)
        assume "\<not> ?S \<le> unat e"
        then have "slot_dead (sorted nd (unat e))"
          by (intro dead) simp
        with right(5) show False
          by (simp add: slot_dead_def)
      qed
      have "unat s \<le> unat e"
      proof (rule ccontr)
        assume "\<not> unat s \<le> unat e"
        with eS up have "sorted nd (unat e) = ALGOT_REF_MERGED"
          by auto
        with right(5) show False
          by simp
      qed
      moreover from right(3) have "unat s \<noteq> unat e"
        by (simp add: word_unat_eq_iff)
      ultimately have lt: "unat s < unat e"
        by simp
      from up down lt have win: "?S \<le> unat s" "unat e \<le> ?E" "unat e < 128"
        by auto
      from live [OF eS win(2)] right(5) have rb: "rb \<in> set (sort_queue nd)"
        "elevator_private0 nd rb = of_nat (unat e)"
        by (simp_all add: slot_planned_def)
      let ?nd2 = "(list_del_init rb
          (nd1\<lparr>sorted := (sorted nd1)(unat i := ALGOT_REF_DISPATCHED), rw_head := blk_rq_pos rb\<rparr>))
          \<lparr>nsorted := nsorted nd1 - 1\<rparr>"
      have po: "pick_opt nd = Inr (rb, ?nd2)"
        using sel right by (simp add: pick_opt_unfold ebind_Inr)
      have ok2: "queues_ok ?nd2"
        by (rule leave_sort_queue_fields [OF ok rb(1)]) (simp_all add: right)
      from lt have "unat e \<noteq> 0"
        by simp
      then have dec: "unat (e - 1) = unat e - 1"
        by (rule unat_dec)
      have "slot_dead (sorted ?nd2 k)" if "k < ?S" for k
        using dead [OF that] that eS by (simp add: right)
      moreover have "slot_planned ?nd2 k" if "?S \<le> k" "k \<le> unat e - 1" for k
      proof (rule slot_planned_after_pick [where nd = nd and k = "unat e" and rq = rb])
        show "slot_planned nd k"
          using that win by (intro live) auto
        show "k < 128" "unat e < 128" "k \<noteq> unat e"
          using that win lt by auto
      qed (simp_all add: right rb)
      moreover have "?S \<le> unat e - 1" "unat e - 1 < 128"
        using lt win by auto
      ultimately have "plan_ok ?nd2"
        by (simp add: plan_ok_def right dec ALGOT_CALC_MAX_def)
      with ok2 po show ?thesis
        by auto
    qed
  qed
  from main show "pick_opt nd \<noteq> Inl BUG_dispatched"
    by simp
  from main show "pick_opt nd = Inr (rq, nd') \<Longrightarrow>
      queues_ok nd' \<and> (ALGOT_DIRTY_COUNT \<le>s dirty nd' \<or> plan_ok nd')"
    by simp
qed

lemma init_inv:
  "algot_init_queue k_nd k_matrix v_matrix k_sorted = Inr (Some nd) \<Longrightarrow> sched_inv nd"
  by (auto simp: algot_init_queue_def Let_def sched_inv_def queues_ok_def ALGOT_DIRTY_COUNT_def
      split: option.splits prod.splits)

lemma efold_Inl:
  assumes "\<And>x st err. f x st = Inl err \<Longrightarrow> err = Fault"
  shows "efold f xs st = Inl err \<Longrightarrow> err = Fault"
proof (induction xs arbitrary: st)
  case Nil
  then show ?case by simp
next
  case (Cons x xs)
  then show ?case
    by (auto split: sum.splits dest: assms)
qed

lemma ebind_Inl_cases:
  "ebind m f = Inl err \<Longrightarrow> m = Inl err \<or> (\<exists>x. m = Inr x \<and> f x = Inl err)"
  by (cases m) (simp_all add: ebind_def)

lemma mx_rd_Inl: "mx_rd mx w i j = Inl err \<Longrightarrow> err = Fault"
  by (simp add: mx_rd_def split: if_splits)

lemma mx_wr_Inl: "mx_wr mx w i j v = Inl err \<Longrightarrow> err = Fault"
  by (simp add: mx_wr_def split: if_splits)

lemma sect_dist_Inl: "sect_dist sa i j = Inl err \<Longrightarrow> err = Fault"
  by (auto simp: sect_dist_def sorted_rd_def slot_pos_def ebind_def
      split: sum.splits if_splits slot.splits)

lemma dp_cell_Inl: "dp_cell sa ns k i mx = Inl err \<Longrightarrow> err = Fault"
  unfolding dp_cell_def Let_def
  by (auto dest!: ebind_Inl_cases dest: mx_rd_Inl mx_wr_Inl sect_dist_Inl)

lemma plan_above_Inl: "plan_above h q st = Inl err \<Longrightarrow> err = Fault"
  by (induction h q st rule: plan_above.induct) (auto split: if_splits)

lemma plan_below_Inl: "plan_below h q st = Inl err \<Longrightarrow> err = Fault"
  by (induction h q st rule: plan_below.induct) (auto split: if_splits)

lemma program_Inl: "algot_program nd = Inl err \<Longrightarrow> err = Fault"
  unfolding algot_program_def Let_def
  by (auto dest!: ebind_Inl_cases
      dest: plan_above_Inl plan_below_Inl mx_wr_Inl dp_cell_Inl efold_Inl [rotated])

lemma dispatch_inv:
  assumes inv: "sched_inv nd"
  shows "algot_dispatch nd \<noteq> Inl BUG_dispatched"
    and "algot_dispatch nd = Inr (r, nd') \<Longrightarrow> sched_inv nd'"
proof -
  from inv have ok: "queues_ok nd"
    by (simp add: sched_inv_def)
  have main: "algot_dispatch nd \<noteq> Inl BUG_dispatched
      \<and> (algot_dispatch nd = Inr (r, nd') \<longrightarrow> sched_inv nd')"
  proof (cases "sort_queue nd \<noteq> [] \<or> wait_queue nd \<noteq> []")
    case False
    with inv show ?thesis
      by (auto simp: algot_dispatch_def)
  next
    case work: True
    define planned where
      "planned = (if ALGOT_DIRTY_COUNT \<le>s dirty nd then algot_program nd else Inr nd)"
    have unf: "algot_dispatch nd = ebind planned (\<lambda>nd1. ebind (pick_opt nd1) (\<lambda>(rq, nd2). Inr (Some rq, nd2)))"
      using work by (simp add: algot_dispatch_def planned_def)
    show ?thesis
    proof (cases planned)
      case (Inl err)
      have "err = Fault"
      proof (cases "ALGOT_DIRTY_COUNT \<le>s dirty nd")
        case True
        with Inl have "algot_program nd = Inl err"
          by (simp add: planned_def)
        then show ?thesis
          by (rule program_Inl)
      next
        case False
        with Inl show ?thesis
          by (simp add: planned_def)
      qed
      then show ?thesis
        by (simp add: unf Inl ebind_Inl)
    next
      case (Inr nd1)
      have ok1: "queues_ok nd1" and plan1: "plan_ok nd1"
      proof -
        show "queues_ok nd1"
          using Inr ok by (auto simp: planned_def program_queues_ok split: if_splits)
        show "plan_ok nd1"
        proof (cases "ALGOT_DIRTY_COUNT \<le>s dirty nd")
          case True
          with Inr have "algot_program nd = Inr nd1"
            by (simp add: planned_def)
          from program_plan_ok [OF ok work this] show ?thesis .
        next
          case False
          with Inr have "nd1 = nd"
            by (simp add: planned_def)
          with False inv work show ?thesis
            by (auto simp: sched_inv_def)
        qed
      qed
      note p = pick_opt_inv [OF ok1 plan1]
      show ?thesis
      proof (cases "pick_opt nd1")
        case (Inl err)
        with p(1) show ?thesis
          by (simp add: unf Inr ebind_Inr ebind_Inl)
      next
        case pr: (Inr res)
        obtain rq nd2 where "res = (rq, nd2)"
          by (cases res)
        with pr p(2) [of rq nd2] show ?thesis
          by (auto simp: unf Inr ebind_Inr sched_inv_def)
      qed
    qed
  qed
  from main show "algot_dispatch nd \<noteq> Inl BUG_dispatched"
    by simp
  from main show "algot_dispatch nd = Inr (r, nd') \<Longrightarrow> sched_inv nd'"
    by simp
qed


lemma step_inv:
  assumes "sched_inv nd" and "allowed nd ev" and "no_overflow nd [ev]"
  shows "step nd ev \<noteq> Inl BUG_dispatched" and "step nd ev = Inr nd' \<Longrightarrow> sched_inv nd'"
proof -
  have "step nd ev \<noteq> Inl BUG_dispatched \<and> (step nd ev = Inr nd' \<longrightarrow> sched_inv nd')"
  proof (cases ev)
    case (Add rq)
    with assms show ?thesis
      by (auto simp: add_request_inv)
  next
    case (Merged rq "next")
    have "algot_merged_requests nd rq next \<noteq> Inl BUG_dispatched"
      by (simp add: algot_merged_requests_def Let_def)
    with assms Merged show ?thesis
      by (auto intro: merged_requests_inv)
  next
    case Dispatch
    show ?thesis
    proof (cases "algot_dispatch nd")
      case (Inl err)
      with dispatch_inv(1) [OF assms(1)] Dispatch show ?thesis
        by (simp add: ebind_Inl)
    next
      case (Inr res)
      obtain r nd2 where "res = (r, nd2)"
        by (cases res)
      with Inr dispatch_inv(2) [OF assms(1), of r nd2] Dispatch show ?thesis
        by (auto simp: ebind_Inr)
    qed
  qed
  then show "step nd ev \<noteq> Inl BUG_dispatched" and "step nd ev = Inr nd' \<Longrightarrow> sched_inv nd'"
    by simp_all
qed

lemma run_inv:
  "sched_inv nd \<Longrightarrow> correct_use nd evs \<Longrightarrow> no_overflow nd evs \<Longrightarrow>
     run nd evs \<noteq> Inl BUG_dispatched \<and> (\<forall>nd'. run nd evs = Inr nd' \<longrightarrow> sched_inv nd')"
proof (induction evs arbitrary: nd)
  case Nil
  then show ?case by simp
next
  case (Cons ev evs)
  from Cons.prems have al: "allowed nd ev"
    by simp
  from Cons.prems have no: "no_overflow nd [ev]"
    by (simp split: sum.splits)
  show ?case
  proof (cases "step nd ev")
    case (Inl err)
    with step_inv(1) [OF Cons.prems(1) al no] show ?thesis
      by (simp add: ebind_Inl)
  next
    case (Inr nd1)
    with step_inv(2) [OF Cons.prems(1) al no] have "sched_inv nd1"
      by simp
    moreover from Cons.prems(2) Inr have "correct_use nd1 evs"
      by simp
    moreover from Cons.prems(3) Inr have "no_overflow nd1 evs"
      by simp
    ultimately show ?thesis
      using Cons.IH [of nd1] Inr by (simp add: ebind_Inr)
  qed
qed

lemma wrap_pending_eq:
  "wrap_pending = one_dispatched
     \<lparr>sort_queue := [Request 2 5, Request 4 7, Request 1 50, Request 3 80], nsorted := 4, dirty := 12,
      elevator_private0 := (\<lambda>_. 0)(Request 1 50 := ALGOT_PRI0_SORTED, Request 2 5 := ALGOT_PRI0_SORTED,
         Request 3 80 := ALGOT_PRI0_SORTED, Request 4 7 := ALGOT_PRI0_SORTED)\<rparr>"
  by (simp add: wrap_pending_def one_dispatched_def zeroed_def scenario_simps)

lemma skip_merged_up_step:
  "unat s < ALGOT_CALC_MAX \<Longrightarrow> sa (unat s) = ALGOT_REF_MERGED
     \<Longrightarrow> skip_merged_up sa s = skip_merged_up sa (s + 1)"
  by (subst skip_merged_up.simps) simp

lemma skip_merged_down_step:
  "unat e < ALGOT_CALC_MAX \<Longrightarrow> sa (unat e) = ALGOT_REF_MERGED
     \<Longrightarrow> skip_merged_down sa e = skip_merged_down sa (e - 1)"
  by (subst skip_merged_down.simps) simp

lemma skip_merged_up_out: "\<not> unat s < ALGOT_CALC_MAX \<Longrightarrow> skip_merged_up sa s = Inl Fault"
  by (subst skip_merged_up.simps) simp

lemma skip_merged_down_out: "\<not> unat e < ALGOT_CALC_MAX \<Longrightarrow> skip_merged_down sa e = Inl Fault"
  by (subst skip_merged_down.simps) simp

lemmas skip_simps = skip_merged_up_step skip_merged_down_step skip_merged_up_out skip_merged_down_out

lemma bug_needs_wrap:
  assumes "algot_init_queue k_nd k_matrix v_matrix k_sorted = Inr (Some nd0)"
    and "correct_use nd0 evs" and "no_overflow nd0 evs"
  shows "run nd0 evs \<noteq> Inl BUG_dispatched"
    and "run nd0 evs = Inr nd \<Longrightarrow> algot_dispatch nd \<noteq> Inl BUG_dispatched"
proof -
  from assms(1) have "sched_inv nd0"
    by (rule init_inv)
  from run_inv [OF this assms(2,3)]
  have r: "run nd0 evs \<noteq> Inl BUG_dispatched" "\<forall>nd'. run nd0 evs = Inr nd' \<longrightarrow> sched_inv nd'"
    by simp_all
  from r(1) show "run nd0 evs \<noteq> Inl BUG_dispatched" .
  assume "run nd0 evs = Inr nd"
  with r(2) have "sched_inv nd"
    by simp
  then show "algot_dispatch nd \<noteq> Inl BUG_dispatched"
    by (rule dispatch_inv(1))
qed

subsection \<open>Wrapping the counter\<close>

lemma run_append: "run nd (xs @ ys) = ebind (run nd xs) (\<lambda>nd'. run nd' ys)"
  by (induction xs arbitrary: nd) (simp_all add: ebind_def split: sum.splits)

lemma correct_use_append:
  "correct_use nd (xs @ ys) \<longleftrightarrow>
     correct_use nd xs \<and> (case run nd xs of Inl err \<Rightarrow> True | Inr nd' \<Rightarrow> correct_use nd' ys)"
  by (induction xs arbitrary: nd) (auto simp: ebind_def split: sum.splits)

lemma spent_window_reached:
  "run fresh_queue wrap_prefix = Inr (spent_window 10)"
  "correct_use fresh_queue wrap_prefix"
  by (simp_all add: wrap_prefix_def spent_window_def one_dispatched_def fresh_queue_def zeroed_def
      scenario_simps skip_simps algot_merged_requests_def ALGOT_PRI0_SORTED_def ALGOT_PRI0_UNSORTED_def
      fun_upd_idem fun_upd_twist)

lemma refill_cycle:
  "run (spent_window d) refill = Inr (spent_window (d + 1))"
  "correct_use (spent_window d) refill"
  by (simp_all add: refill_def spent_window_def one_dispatched_def zeroed_def
      scenario_simps algot_merged_requests_def ALGOT_PRI0_SORTED_def ALGOT_PRI0_UNSORTED_def)

lemma refill_cycles:
  "run (spent_window d) (concat (replicate n refill)) = Inr (spent_window (d + of_nat n))
   \<and> correct_use (spent_window d) (concat (replicate n refill))"
proof (induction n arbitrary: d)
  case 0
  show ?case by simp
next
  case (Suc n)
  from Suc [of "d + 1"] show ?case
    by (simp add: run_append correct_use_append refill_cycle ebind_Inr ac_simps)
qed

lemma spent_window_BUG:
  "\<not> ALGOT_DIRTY_COUNT \<le>s d \<Longrightarrow> algot_dispatch (spent_window d) = Inl BUG_dispatched"
  by (simp add: spent_window_def one_dispatched_def zeroed_def algot_dispatch_def pick_opt_unfold
      pick_slot_def skip_merged_up_stop skip_merged_down_stop ALGOT_CALC_MAX_def ebind_Inr ebind_Inl)

lemma wrap_cycles_dirty: "(10 :: c_int) + of_nat wrap_cycles = 2147483648"
  by (simp add: wrap_cycles_def)

text \<open>
  With the counter wrapped, the \<open>BUG()\<close> of \<open>pick_opt\<close> is reached by allowed calls:
  after \<open>wrap_prefix\<close> and \<open>wrap_cycles\<close> times \<open>refill\<close>, \<open>dirty\<close> is negative, so
  \<open>algot_dispatch\<close> does not plan, and \<open>pick_opt\<close> selects the only entry of the
  window, which is \<open>ALGOT_REF_DISPATCHED\<close>.
\<close>

lemma dirty_wrap_reaches_BUG:
  "correct_use fresh_queue (wrap_prefix @ concat (replicate wrap_cycles refill) @ [Dispatch])
   \<and> run fresh_queue (wrap_prefix @ concat (replicate wrap_cycles refill) @ [Dispatch])
       = Inl BUG_dispatched"
proof -
  let ?cyc = "concat (replicate wrap_cycles refill)"
  have bug: "algot_dispatch (spent_window 2147483648) = Inl BUG_dispatched"
    by (rule spent_window_BUG) (simp add: word_sle_eq ALGOT_DIRTY_COUNT_def)
  note r1 = spent_window_reached(1) and c1 = spent_window_reached(2)
  have r2: "run (spent_window 10) ?cyc = Inr (spent_window 2147483648)"
    and c2: "correct_use (spent_window 10) ?cyc"
    using refill_cycles [of 10 wrap_cycles] by (simp_all only: wrap_cycles_dirty)
  have r3: "run (spent_window 10) (?cyc @ [Dispatch]) = Inl BUG_dispatched"
    by (simp add: run_append r2 ebind_Inr bug ebind_Inl)
  have c3: "correct_use (spent_window 10) (?cyc @ [Dispatch])"
    by (simp add: correct_use_append r2 c2 bug ebind_Inl)
  have "run fresh_queue (wrap_prefix @ ?cyc @ [Dispatch]) = Inl BUG_dispatched"
    by (simp only: run_append [of fresh_queue wrap_prefix] r1 ebind_Inr r3)
  moreover have "correct_use fresh_queue (wrap_prefix @ ?cyc @ [Dispatch])"
    by (simp only: correct_use_append [of fresh_queue wrap_prefix] r1 c1 c3 sum.case simp_thms)
  ultimately show ?thesis
    by (rule conjI [rotated])
qed

subsection \<open>States with merged entries at the ends of the window\<close>

lemma merged_far_end_reached:
  "run fresh_queue
     [Add (Request 1 10), Add (Request 2 20), Add (Request 3 30), Dispatch,
      Merged (Request 2 20) (Request 3 30)] = Inr merged_far_end"
  by (simp add: merged_far_end_def fresh_queue_def zeroed_def scenario_simps skip_simps
      algot_merged_requests_def ALGOT_PRI0_SORTED_def ALGOT_PRI0_UNSORTED_def)
     (auto simp: fun_eq_iff)

lemma merged_ends_reached:
  "run fresh_queue
     [Add (Request 1 10), Add (Request 2 20), Add (Request 3 30), Add (Request 4 40),
      Add (Request 5 50), Dispatch,
      Merged (Request 3 30) (Request 2 20), Merged (Request 4 40) (Request 5 50)] = Inr merged_ends"
  by (simp add: merged_ends_def fresh_queue_def zeroed_def scenario_simps skip_simps
      algot_merged_requests_def ALGOT_PRI0_SORTED_def ALGOT_PRI0_UNSORTED_def)
     (auto simp: fun_eq_iff)

section \<open>The claims\<close>

text \<open>
  C1 (scenario A). A scheduler is initialised (head position 0; the capacity of the
  code is \<open>ALGOT_CALC_MAX = 128\<close>), whatever the fresh memory holds. Four requests at
  the positions 50, 10, 80, 30 are added in this order. The calls of
  \<open>algot_dispatch\<close> that follow hand out the requests at 10, 30, 50, 80, in this
  order, and the fifth call has nothing to hand out.
\<close>

theorem scenario_A_dispatch_order:
  "(case algot_init_queue (Some mem) (Some m) vm (Some sa) of
      Inr (Some nd0) \<Rightarrow>
        rw_head nd0 = 0 \<and>
        map_sum id fst (dispatch_n 5 (foldl algot_add_request nd0
          [Request a 50, Request b 10, Request c 80, Request d 30]))
        = Inr [Some (Request b 10), Some (Request d 30), Some (Request a 50),
               Some (Request c 80), None]
    | _ \<Rightarrow> False)"
  by (simp add: scenario_simps dispatch_n_numeral)

text \<open>
  C2. The claim fails on the code. A scheduler is initialised, whatever the fresh
  memory holds, and the calls of \<open>emptied_window_trace\<close> are made, each of them
  allowed: requests are added while in neither queue, and the request whose merge is
  reported is in the sort queue, as is the request it is merged into. After them
  the window is \<open>[1, 1]\<close>, its only entry is \<open>ALGOT_REF_MERGED\<close>, the entries at the
  indices 0 and 2 are \<open>ALGOT_REF_DISPATCHED\<close>, one request is in the sort queue, and
  \<open>dirty\<close> is 1. The next \<open>algot_dispatch\<close> therefore does not plan; the boundary
  loops of \<open>pick_opt\<close> leave the window and stop at the indices 2 and 0, on entries
  that are already dispatched, and the entry at index 2 is selected and
  dereferenced: an invalid access. (Once the counter \<open>dirty\<close> has wrapped, the
  \<open>BUG()\<close> itself is reached: \<open>dirty_wrap_reaches_BUG\<close>. Without the wrap it is not:
  \<open>bug_needs_wrap\<close>.)
\<close>

theorem dispatch_selects_dispatched_slot:
  "(case algot_init_queue (Some mem) (Some m) vm (Some sa) of
      Inr (Some nd0) \<Rightarrow>
        correct_use nd0 (emptied_window_trace @ [Dispatch])
        \<and> (case run nd0 emptied_window_trace of
             Inr nd \<Rightarrow>
               sort_queue nd = [Request 4 150] \<and> wait_queue nd = [] \<and> dirty nd = 1
               \<and> opt_s nd = 1 \<and> opt_e nd = 1
               \<and> sorted nd 0 = ALGOT_REF_DISPATCHED \<and> sorted nd 1 = ALGOT_REF_MERGED
               \<and> sorted nd 2 = ALGOT_REF_DISPATCHED
               \<and> skip_merged_up (sorted nd) (opt_s nd) = Inr 2
               \<and> skip_merged_down (sorted nd) (opt_e nd) = Inr 0
               \<and> algot_dispatch nd = Inl Fault
           | Inl err \<Rightarrow> False)
    | _ \<Rightarrow> False)"
  by (simp add: emptied_window_trace_def scenario_simps skip_simps algot_merged_requests_def
      ALGOT_PRI0_SORTED_def ALGOT_PRI0_UNSORTED_def)

theorem dispatch_selects_dispatched_slot_witness:
  "algot_init_queue (Some zeroed) (Some (\<lambda>_. 0)) None (Some (\<lambda>_. ALGOT_REF_MERGED))
     = Inr (Some fresh_queue)
   \<and> correct_use fresh_queue (emptied_window_trace @ [Dispatch])
   \<and> \<not> isl (run fresh_queue emptied_window_trace)
   \<and> run fresh_queue (emptied_window_trace @ [Dispatch]) = Inl Fault"
  using dispatch_selects_dispatched_slot [of zeroed "\<lambda>_. 0" None "\<lambda>_. ALGOT_REF_MERGED"]
  by (auto simp: init_zeroed run_append ebind_def split: sum.splits)

text \<open>
  C3. \<open>algot_exit_queue\<close> tests the sort queue only. A scheduler is initialised, 129
  requests are added (the last one goes to the wait queue), and the 128 requests of
  the sort queue are merged away: the sort queue is empty, the wait queue still holds
  a request, and \<open>algot_exit_queue\<close> frees the scheduler without \<open>BUG_ON\<close>.
\<close>

theorem exit_ignores_wait_queue:
  "(case algot_init_queue (Some mem) (Some m) vm (Some sa) of
      Inr (Some nd0) \<Rightarrow>
        (case efold (\<lambda>r nd. algot_merged_requests nd (Request 128 128) r) (reqs 128)
                (foldl algot_add_request nd0 (reqs 129)) of
           Inr nd \<Rightarrow> sort_queue nd = [] \<and> wait_queue nd = [Request 128 128]
                     \<and> algot_exit_queue nd = Inr ()
         | Inl err \<Rightarrow> False)
    | _ \<Rightarrow> False)"
proof -
  define nd0 where "nd0 = mem\<lparr>nsorted := 0, rw_head := 0, dirty := 7, wait_queue := [],
      sort_queue := [], vloc := False, cost_matrix := m, vloc := False, sorted := sa\<rparr>"
  have init: "algot_init_queue (Some mem) (Some m) vm (Some sa) = Inr (Some nd0)"
    by (simp add: algot_init_queue_def nd0_def ALGOT_DIRTY_COUNT_def)
  have "reqs (Suc 128) = reqs 128 @ [Request 128 (of_nat 128)]"
    by (rule reqs_Suc)
  then have split: "reqs 129 = reqs 128 @ [Request 128 128]"
    by simp
  define nd1 where "nd1 = foldl algot_sort_in nd0 (reqs 128)"
  have fill: "foldl algot_add_request nd0 (reqs 128) = nd1"
    unfolding nd1_def by (rule foldl_add_room) (simp_all add: nd0_def length_reqs ALGOT_CALC_MAX_def)
  have n1: "nsorted nd1 = 128" "wait_queue nd1 = []" "set (sort_queue nd1) = set (reqs 128)"
    by (simp_all add: nd1_def foldl_sort_in_fields nd0_def length_reqs)
  define nd2 where "nd2 = algot_add_request nd1 (Request 128 128)"
  have full: "\<not> unat (nsorted nd1) < ALGOT_CALC_MAX"
    by (simp add: n1 ALGOT_CALC_MAX_def)
  have nd2_eq: "nd2 = nd1\<lparr>elevator_private0 :=
      (elevator_private0 nd1)(Request 128 128 := ALGOT_PRI0_UNSORTED),
      wait_queue := wait_queue nd1 @ [Request 128 128]\<rparr>"
    using full by (simp add: nd2_def algot_add_request_def drain_wait_queue_full)
  have nd2: "wait_queue nd2 = [Request 128 128]" "sort_queue nd2 = sort_queue nd1"
    by (simp_all add: nd2_eq n1)
  have tags: "\<forall>r \<in> set (reqs 128). elevator_private0 nd2 r = ALGOT_PRI0_SORTED"
    using reqs_fresh [of 128 128] by (auto simp: nd2_eq nd1_def foldl_sort_in_fields)
  have all: "foldl algot_add_request nd0 (reqs 129) = nd2"
    by (simp add: split fill nd2_def)
  from efold_merged_sorted_tag [OF tags, of "Request 128 128"] obtain nd3 where
    nd3: "efold (\<lambda>r nd. algot_merged_requests nd (Request 128 128) r) (reqs 128) nd2 = Inr nd3"
      "wait_queue nd3 = filter (\<lambda>r. r \<notin> set (reqs 128)) (wait_queue nd2)"
      "sort_queue nd3 = filter (\<lambda>r. r \<notin> set (reqs 128)) (sort_queue nd2)"
    by blast
  have "sort_queue nd3 = []"
    using nd3(3) nd2(2) n1(3) by (simp add: filter_empty_conv)
  moreover have "wait_queue nd3 = [Request 128 128]"
    using nd3(2) nd2(1) reqs_fresh [of 128 128] by simp
  ultimately show ?thesis
    by (simp add: init all nd3(1) algot_exit_queue_def)
qed

text \<open>
  C4. When the first allocation of \<open>algot_init_queue\<close> (the scheduler data) fails,
  the function stores into the null pointer before it tests it: the outcome is an
  invalid access, not the reported failure \<open>Inr None\<close>. The failure of a later
  allocation is reported.
\<close>

theorem init_null_data_is_dereferenced:
  "algot_init_queue None k_matrix v_matrix k_sorted = Inl Fault
   \<and> algot_init_queue (Some mem) k_matrix v_matrix None = Inr None
   \<and> algot_init_queue (Some mem) None None k_sorted = Inr None"
  by (simp add: algot_init_queue_def split: option.splits)

text \<open>
  C5. Starting from a state whose live count \<open>nsorted\<close> is at most \<open>ALGOT_CALC_MAX\<close>
  (as after initialisation), the live count stays at most \<open>ALGOT_CALC_MAX\<close> after
  any sequence of \<open>algot_add_request\<close>; and a request added while the live count is
  \<open>ALGOT_CALC_MAX\<close> is tagged unsorted and appended to the tail of the wait queue,
  with nothing else changed.
\<close>

theorem capacity_bound:
  "unat (nsorted nd) \<le> ALGOT_CALC_MAX \<Longrightarrow>
     unat (nsorted (foldl algot_add_request nd rs)) \<le> ALGOT_CALC_MAX \<and>
     (unat (nsorted nd) = ALGOT_CALC_MAX \<longrightarrow>
        algot_add_request nd rq =
          nd\<lparr>elevator_private0 := (elevator_private0 nd)(rq := ALGOT_PRI0_UNSORTED),
             wait_queue := wait_queue nd @ [rq]\<rparr>)"
proof
  assume "unat (nsorted nd) \<le> ALGOT_CALC_MAX"
  then show "unat (nsorted (foldl algot_add_request nd rs)) \<le> ALGOT_CALC_MAX"
    by (induction rs arbitrary: nd) (simp_all add: add_request_nsorted_le)
next
  show "unat (nsorted nd) = ALGOT_CALC_MAX \<longrightarrow>
        algot_add_request nd rq =
          nd\<lparr>elevator_private0 := (elevator_private0 nd)(rq := ALGOT_PRI0_UNSORTED),
             wait_queue := wait_queue nd @ [rq]\<rparr>"
    by (simp add: algot_add_request_def drain_wait_queue_full)
qed

theorem capacity_bound_witness:
  "unat (nsorted (foldl algot_add_request fresh_queue (reqs 128))) = ALGOT_CALC_MAX
   \<and> unat (nsorted (foldl algot_add_request (foldl algot_add_request fresh_queue (reqs 128))
         [Request 128 128, Request 129 5])) \<le> ALGOT_CALC_MAX
   \<and> algot_add_request (foldl algot_add_request fresh_queue (reqs 128)) (Request 128 128)
       = (foldl algot_add_request fresh_queue (reqs 128))
           \<lparr>elevator_private0 :=
              (elevator_private0 (foldl algot_add_request fresh_queue (reqs 128)))
                (Request 128 128 := ALGOT_PRI0_UNSORTED),
            wait_queue := wait_queue (foldl algot_add_request fresh_queue (reqs 128))
                           @ [Request 128 128]\<rparr>"
proof -
  have full: "unat (nsorted (foldl algot_add_request fresh_queue (reqs 128))) = ALGOT_CALC_MAX"
    by (simp add: full_queue_nsorted ALGOT_CALC_MAX_def)
  then have "unat (nsorted (foldl algot_add_request fresh_queue (reqs 128))) \<le> ALGOT_CALC_MAX"
    by simp
  from capacity_bound [OF this, of "[Request 128 128, Request 129 5]" "Request 128 128"] full
  show ?thesis
    by blast
qed

text \<open>
  C6. On every state with consistent queues \<open>algot_program\<close> completes, and it leaves
  \<open>dirty = 0\<close>, \<open>opt_s = 0\<close> and \<open>opt_e = nsorted - 1\<close>, where \<open>nsorted\<close> is the number
  of requests in the sort queue after the wait queue was drained (not zero when there
  was a request in either queue). The array \<open>sorted\<close> then holds, from index 0 on, the
  requests of the sort queue beyond the head position in ascending order of position,
  followed by those at or before the head position in ascending order, and
  \<open>elevator_private[0]\<close> of each of them is its index.
\<close>

theorem plan_rebuild:
  assumes ok: "queues_ok nd"
  shows "\<exists>nd'. algot_program nd = Inr nd' \<and> dirty nd' = 0 \<and> opt_s nd' = 0 \<and> opt_e nd' = nsorted nd' - 1
    \<and> opt_ns nd' = nsorted nd'
    \<and> sort_queue nd' = sort_queue (drain_wait_queue nd)
    \<and> unat (nsorted nd') = length (sort_queue nd')
    \<and> (sort_queue nd \<noteq> [] \<or> wait_queue nd \<noteq> []
         \<longrightarrow> sort_queue nd' \<noteq> [] \<and> unat (opt_e nd') = length (sort_queue nd') - 1)
    \<and> sorted_wrt precedes (filter (\<lambda>r. rw_head nd < blk_rq_pos r) (sort_queue nd'))
    \<and> sorted_wrt precedes (filter (\<lambda>r. blk_rq_pos r \<le> rw_head nd) (sort_queue nd'))
    \<and> (\<forall>j < length (sort_queue nd').
          sorted nd' j
            = Ref ((filter (\<lambda>r. rw_head nd < blk_rq_pos r) (sort_queue nd')
                    @ filter (\<lambda>r. blk_rq_pos r \<le> rw_head nd) (sort_queue nd')) ! j)
          \<and> elevator_private0 nd'
               ((filter (\<lambda>r. rw_head nd < blk_rq_pos r) (sort_queue nd')
                 @ filter (\<lambda>r. blk_rq_pos r \<le> rw_head nd) (sort_queue nd')) ! j)
            = of_nat j)"
proof -
  from program_completes [OF ok] obtain nd' where res: "algot_program nd = Inr nd'"
    by blast
  note p = program_plan [OF ok res]
  from program_queues_ok [OF ok res] have srt: "sorted_wrt precedes (sort_queue nd')"
    by (simp add: queues_ok_def)
  have cs: "cscan_order (rw_head nd) (sort_queue nd')
      = filter (\<lambda>r. rw_head nd < blk_rq_pos r) (sort_queue nd')
        @ filter (\<lambda>r. blk_rq_pos r \<le> rw_head nd) (sort_queue nd')"
    by (simp add: cscan_order_def not_less)
  have work: "sort_queue nd' \<noteq> [] \<and> unat (opt_e nd') = length (sort_queue nd') - 1"
    if w: "sort_queue nd \<noteq> [] \<or> wait_queue nd \<noteq> []"
  proof -
    from program_plan_ok [OF ok w res] have "unat (opt_e nd') < ALGOT_CALC_MAX"
      by (simp add: plan_ok_def)
    then have "nsorted nd' \<noteq> 0"
      by (auto simp: p(7) ALGOT_CALC_MAX_def unsigned_minus_1_eq_mask mask_eq_exp_minus_1)
    then have "unat (nsorted nd') \<noteq> 0"
      by (simp add: unat_eq_0)
    then show ?thesis
      using p(9) by (auto simp: p(7) unat_dec)
  qed
  have idx: "\<forall>j < length (sort_queue nd').
          sorted nd' j
            = Ref ((filter (\<lambda>r. rw_head nd < blk_rq_pos r) (sort_queue nd')
                    @ filter (\<lambda>r. blk_rq_pos r \<le> rw_head nd) (sort_queue nd')) ! j)
          \<and> elevator_private0 nd'
               ((filter (\<lambda>r. rw_head nd < blk_rq_pos r) (sort_queue nd')
                 @ filter (\<lambda>r. blk_rq_pos r \<le> rw_head nd) (sort_queue nd')) ! j)
            = of_nat j"
    using p(10) unfolding cs .
  have len: "unat (nsorted nd') = length (sort_queue nd')"
    by (simp add: p(9))
  have above: "sorted_wrt precedes (filter (\<lambda>r. rw_head nd < blk_rq_pos r) (sort_queue nd'))"
    and below: "sorted_wrt precedes (filter (\<lambda>r. blk_rq_pos r \<le> rw_head nd) (sort_queue nd'))"
    using srt by (simp_all add: sorted_wrt_filter)
  from res p(5) p(6) p(7) p(8) p(1) len work above below idx show ?thesis
    by blast
qed

theorem plan_rebuild_witness:
  "queues_ok wrap_pending
   \<and> rw_head wrap_pending = 10
   \<and> sort_queue wrap_pending = [Request 2 5, Request 4 7, Request 1 50, Request 3 80]
   \<and> algot_program wrap_pending = Inr (projr (algot_program wrap_pending))
   \<and> dirty (projr (algot_program wrap_pending)) = 0
   \<and> opt_s (projr (algot_program wrap_pending)) = 0
   \<and> opt_e (projr (algot_program wrap_pending)) = 3
   \<and> map (sorted (projr (algot_program wrap_pending))) [0, 1, 2, 3]
       = [Ref (Request 1 50), Ref (Request 3 80), Ref (Request 2 5), Ref (Request 4 7)]
   \<and> map (elevator_private0 (projr (algot_program wrap_pending)))
        [Request 1 50, Request 3 80, Request 2 5, Request 4 7] = [0, 1, 2, 3]"
  using plan_rebuild [of wrap_pending]
  by (simp add: wrap_pending_eq one_dispatched_def zeroed_def scenario_simps queues_ok_def precedes_def
      ALGOT_PRI0_SORTED_def ALGOT_PRI0_UNSORTED_def)

text \<open>
  C8. When, after the wait queue was drained, the wait queue is empty and the live
  count is below \<open>ALGOT_CALC_MAX\<close>, \<open>algot_add_request\<close> links the request before the
  first entry of the sort queue with a greater position (after the entries with a
  smaller or equal position, at the tail when there is no greater one), an ordered
  sort queue stays ordered, the live count and \<open>dirty\<close> grow by one, and the request is
  tagged sorted. The function returns a state for every input.
\<close>

theorem add_request_with_room:
  assumes "wait_queue (drain_wait_queue nd) = []"
    and "unat (nsorted (drain_wait_queue nd)) < ALGOT_CALC_MAX"
  shows "sort_queue (algot_add_request nd rq)
           = takeWhile (\<lambda>r. \<not> blk_rq_pos r > blk_rq_pos rq) (sort_queue (drain_wait_queue nd))
             @ rq # dropWhile (\<lambda>r. \<not> blk_rq_pos r > blk_rq_pos rq) (sort_queue (drain_wait_queue nd))
         \<and> (sorted_wrt precedes (sort_queue (drain_wait_queue nd))
              \<longrightarrow> sorted_wrt precedes (sort_queue (algot_add_request nd rq)))
         \<and> nsorted (algot_add_request nd rq) = nsorted (drain_wait_queue nd) + 1
         \<and> unat (nsorted (algot_add_request nd rq)) = Suc (unat (nsorted (drain_wait_queue nd)))
         \<and> dirty (algot_add_request nd rq) = dirty (drain_wait_queue nd) + 1
         \<and> wait_queue (algot_add_request nd rq) = []
         \<and> elevator_private0 (algot_add_request nd rq) rq = ALGOT_PRI0_SORTED"
proof -
  have eq: "algot_add_request nd rq = algot_sort_in (drain_wait_queue nd) rq"
    using assms by (simp add: algot_add_request_def)
  from assms(2) have "unat (nsorted (drain_wait_queue nd) + 1) = Suc (unat (nsorted (drain_wait_queue nd)))"
    by (simp add: ALGOT_CALC_MAX_def unat_inc_small)
  then show ?thesis
    using assms(1)
    by (simp add: eq sorted_sort_queue_insert sort_queue_insert_conv [symmetric])
qed

theorem add_request_with_room_witness:
  "wait_queue (drain_wait_queue (foldl algot_add_request fresh_queue [Request 1 50, Request 2 10, Request 3 50])) = []
   \<and> sort_queue (foldl algot_add_request fresh_queue [Request 1 50, Request 2 10, Request 3 50])
        = [Request 2 10, Request 1 50, Request 3 50]
   \<and> sort_queue (algot_add_request
          (foldl algot_add_request fresh_queue [Request 1 50, Request 2 10, Request 3 50]) (Request 4 50))
        = [Request 2 10, Request 1 50, Request 3 50, Request 4 50]
   \<and> unat (nsorted (algot_add_request
          (foldl algot_add_request fresh_queue [Request 1 50, Request 2 10, Request 3 50]) (Request 4 50))) = 4
   \<and> dirty (algot_add_request
          (foldl algot_add_request fresh_queue [Request 1 50, Request 2 10, Request 3 50]) (Request 4 50)) = 11"
  using add_request_with_room
    [of "foldl algot_add_request fresh_queue [Request 1 50, Request 2 10, Request 3 50]" "Request 4 50"]
  by (simp add: scenario_simps fresh_queue_def zeroed_def)

text \<open>
  C9, as stated, fails. One request is added to the fresh scheduler and dispatched;
  it is then in neither queue, and its \<open>elevator_private[0]\<close> still holds the index 0.
  \<open>algot_merged_requests\<close> on it decrements the live count (from 0, wrapping around)
  and overwrites entry 0 of \<open>sorted\<close>.
\<close>

theorem notify_absent_counterexample:
  "algot_dispatch (algot_add_request fresh_queue (Request 0 10))
     = Inr (Some (Request 0 10), one_dispatched)
   \<and> Request 0 10 \<notin> set (sort_queue one_dispatched)
   \<and> Request 0 10 \<notin> set (wait_queue one_dispatched)
   \<and> nsorted one_dispatched = 0
   \<and> sorted one_dispatched 0 = ALGOT_REF_DISPATCHED
   \<and> map_sum id nsorted (algot_merged_requests one_dispatched (Request 1 20) (Request 0 10))
       = Inr (- 1)
   \<and> map_sum id (\<lambda>nd. sorted nd 0)
         (algot_merged_requests one_dispatched (Request 1 20) (Request 0 10))
       = Inr ALGOT_REF_MERGED"
  by (simp add: one_dispatched_reached)
     (simp add: one_dispatched_def zeroed_def algot_merged_requests_def list_del_init_def
      ALGOT_PRI0_UNSORTED_def ALGOT_PRI0_SORTED_def ALGOT_CALC_MAX_def)

text \<open>
  C9, amended. For a request that is in neither queue, \<open>algot_merged_requests\<close>
  changes nothing exactly when \<open>elevator_private[0]\<close> of the request is
  \<open>ALGOT_PRI0_UNSORTED\<close>.
\<close>

theorem notify_absent_noop_iff:
  assumes "next \<notin> set (sort_queue nd)" and "next \<notin> set (wait_queue nd)"
  shows "algot_merged_requests nd rq next = Inr nd
    \<longleftrightarrow> elevator_private0 nd next = ALGOT_PRI0_UNSORTED"
proof
  assume "elevator_private0 nd next = ALGOT_PRI0_UNSORTED"
  with assms show "algot_merged_requests nd rq next = Inr nd"
    by (simp add: algot_merged_requests_def list_del_init_absent)
next
  assume same: "algot_merged_requests nd rq next = Inr nd"
  show "elevator_private0 nd next = ALGOT_PRI0_UNSORTED"
  proof (rule ccontr)
    assume "elevator_private0 nd next \<noteq> ALGOT_PRI0_UNSORTED"
    then have "\<forall>nd'. algot_merged_requests nd rq next = Inr nd' \<longrightarrow> nsorted nd' = nsorted nd - 1"
      by (auto simp: algot_merged_requests_def Let_def split: if_splits)
    with same have "nsorted nd = nsorted nd - 1"
      by blast
    then show False
      by simp
  qed
qed

theorem notify_absent_noop_iff_witness:
  "Request 0 10 \<notin> set (sort_queue (one_dispatched\<lparr>elevator_private0 := (\<lambda>_. 0)(Request 0 10 := ALGOT_PRI0_UNSORTED)\<rparr>))
   \<and> Request 0 10 \<notin> set (wait_queue (one_dispatched\<lparr>elevator_private0 := (\<lambda>_. 0)(Request 0 10 := ALGOT_PRI0_UNSORTED)\<rparr>))
   \<and> algot_merged_requests (one_dispatched\<lparr>elevator_private0 := (\<lambda>_. 0)(Request 0 10 := ALGOT_PRI0_UNSORTED)\<rparr>)
         (Request 1 20) (Request 0 10)
       = Inr (one_dispatched\<lparr>elevator_private0 := (\<lambda>_. 0)(Request 0 10 := ALGOT_PRI0_UNSORTED)\<rparr>)"
  using notify_absent_noop_iff
    [of "Request 0 10" "one_dispatched\<lparr>elevator_private0 := (\<lambda>_. 0)(Request 0 10 := ALGOT_PRI0_UNSORTED)\<rparr>" "Request 1 20"]
  by (simp add: one_dispatched_def zeroed_def)

text \<open>
  C10. Whenever the first part of \<open>pick_opt\<close> chooses an index, the array \<open>sorted\<close> is
  the one the boundary loops read and the entry at the chosen index is not
  \<open>ALGOT_REF_MERGED\<close>; so \<open>pick_opt\<close> equals its body with the retry branch removed: the
  selection is made once per call.
\<close>

theorem pick_opt_never_retries:
  "(pick_slot nd = Inr (i, nd1)
      \<longrightarrow> sorted nd1 = sorted nd \<and> sorted nd1 (unat i) \<noteq> ALGOT_REF_MERGED)
   \<and> pick_opt nd =
       ebind (pick_slot nd) (\<lambda>(i, nd1).
         case sorted nd1 (unat i) of
           Ref rq \<Rightarrow>
             Inr (rq, (list_del_init rq
                        (nd1\<lparr>sorted := (sorted nd1)(unat i := ALGOT_REF_DISPATCHED),
                             rw_head := blk_rq_pos rq\<rparr>))
                      \<lparr>nsorted := nsorted nd1 - 1\<rparr>)
         | _ \<Rightarrow> Inl BUG_dispatched)"
proof
  show "pick_slot nd = Inr (i, nd1)
      \<longrightarrow> sorted nd1 = sorted nd \<and> sorted nd1 (unat i) \<noteq> ALGOT_REF_MERGED"
    using pick_slot_sorted [of nd i nd1] pick_slot_not_merged [of nd i nd1] by blast
next
  show "pick_opt nd =
       ebind (pick_slot nd) (\<lambda>(i, nd1).
         case sorted nd1 (unat i) of
           Ref rq \<Rightarrow>
             Inr (rq, (list_del_init rq
                        (nd1\<lparr>sorted := (sorted nd1)(unat i := ALGOT_REF_DISPATCHED),
                             rw_head := blk_rq_pos rq\<rparr>))
                      \<lparr>nsorted := nsorted nd1 - 1\<rparr>)
         | _ \<Rightarrow> Inl BUG_dispatched)"
    by (rule pick_opt_unfold)
qed

theorem pick_opt_never_retries_witness:
  "opt_s merged_ends = 1 \<and> opt_e merged_ends = 4
   \<and> sorted merged_ends 1 = ALGOT_REF_MERGED \<and> sorted merged_ends 4 = ALGOT_REF_MERGED
   \<and> skip_merged_up (sorted merged_ends) (opt_s merged_ends) = Inr 2
   \<and> skip_merged_down (sorted merged_ends) (opt_e merged_ends) = Inr 3
   \<and> pick_slot merged_ends = Inr (2, merged_ends\<lparr>opt_s := 3\<rparr>)
   \<and> sorted (merged_ends\<lparr>opt_s := 3\<rparr>) (unat (2 :: uint)) = Ref (Request 3 30)
   \<and> sorted (merged_ends\<lparr>opt_s := 3\<rparr>) (unat (2 :: uint)) \<noteq> ALGOT_REF_MERGED
   \<and> map_sum id fst (pick_opt merged_ends) = Inr (Request 3 30)
   \<and> opt_s merged_far_end = 1 \<and> opt_e merged_far_end = 2
   \<and> sorted merged_far_end 2 = ALGOT_REF_MERGED
   \<and> skip_merged_down (sorted merged_far_end) (opt_e merged_far_end) = Inr 1
   \<and> pick_slot merged_far_end = Inr (1, merged_far_end\<lparr>dirty := 8\<rparr>)
   \<and> sorted (merged_far_end\<lparr>dirty := 8\<rparr>) (unat (1 :: uint)) = Ref (Request 2 20)
   \<and> sorted (merged_far_end\<lparr>dirty := 8\<rparr>) (unat (1 :: uint)) \<noteq> ALGOT_REF_MERGED
   \<and> map_sum id fst (pick_opt merged_far_end) = Inr (Request 2 20)"
  using pick_opt_never_retries [of merged_ends 2 "merged_ends\<lparr>opt_s := 3\<rparr>"]
    pick_opt_never_retries [of merged_far_end 1 "merged_far_end\<lparr>dirty := 8\<rparr>"]
  by (simp add: scenario_simps skip_simps merged_ends_def merged_far_end_def)

end
